theory Spec2Isabelle
  imports Main "HOL-Library.Word"
begin

section \<open>AsyncButton: data model\<close>

text \<open>
  The library keeps one \<open>State\<close> struct per button in an array (\<open>Config.buttons\<close>,
  \<open>Config.size\<close>), reached through the global pointer \<open>Current\<close>. The array is
  modelled as a list of records, passed to and returned from every operation.
  \<open>uint8_t\<close> is \<open>8 word\<close>; \<open>unsigned long\<close> (the type of \<open>millis()\<close>) is
  \<open>32 word\<close>, so that \<open>-\<close> wraps as the C++ subtraction does.
  The pointer \<open>mappedState\<close> is either null or points at an element of the array that
  \<open>getState\<close> found: it is modelled as an optional index into the list.
\<close>

type_synonym uint8 = "8 word"
type_synonym ulong = "32 word"

record State =
  pin :: uint8
  state :: uint8
  doublePress :: bool
  duration :: ulong
  last_time :: ulong
  lastReading :: uint8
  lastChangeTime :: ulong
  lastLongPressCallback :: ulong
  mappedPin :: uint8
  mappedState :: "nat option"

text \<open>The macros of AsyncButton.h, with their default values.\<close>

definition BUTTON_DEBOUNCE_TIME :: ulong where
  "BUTTON_DEBOUNCE_TIME = 50"

definition BUTTON_DOUBLECLICK_TIME :: ulong where
  "BUTTON_DOUBLECLICK_TIME = 400"

definition BUTTON_LONGPRESS_TIME :: ulong where
  "BUTTON_LONGPRESS_TIME = 1000"

text \<open>\<open>PRESSED\<close> is \<open>LOW\<close> (0), \<open>RELEASED\<close> is \<open>HIGH\<close> (1).\<close>

definition PRESSED :: uint8 where
  "PRESSED = 0"

definition RELEASED :: uint8 where
  "RELEASED = 1"

section \<open>Lookup and reset\<close>

text \<open>
  \<open>getState\<close>: null for the sentinel pin 255, otherwise the first element of the array
  whose \<open>pin\<close> equals the argument, or null when there is none.
\<close>

fun find_pin :: "uint8 \<Rightarrow> State list \<Rightarrow> nat option" where
  "find_pin p [] = None"
| "find_pin p (b # bs) =
     (if pin b = p then Some 0
      else (case find_pin p bs of None \<Rightarrow> None | Some i \<Rightarrow> Some (Suc i)))"

definition getState :: "uint8 \<Rightarrow> State list \<Rightarrow> nat option" where
  "getState p bs = (if p = 255 then None else find_pin p bs)"

text \<open>
  The aggregate that \<open>reset\<close> assigns to a record: every field cleared, the raw-change
  time set to \<open>millis()\<close>, the pin and the two mapping fields kept.
\<close>

definition cleared :: "ulong \<Rightarrow> State \<Rightarrow> State" where
  "cleared now b =
     \<lparr>pin = pin b, state = RELEASED, doublePress = False, duration = 0, last_time = 0,
      lastReading = RELEASED, lastChangeTime = now, lastLongPressCallback = 0,
      mappedPin = mappedPin b, mappedState = mappedState b\<rparr>"

text \<open>
  The loop of \<open>reset\<close> over the array: iteration \<open>k\<close> touches element \<open>k\<close> only, and
  \<open>&mappedButton != button\<close> is the comparison of \<open>k\<close> with the index \<open>i\<close> that the
  lookup returned.
\<close>

fun reset_loop :: "ulong \<Rightarrow> uint8 \<Rightarrow> nat \<Rightarrow> nat \<Rightarrow> State list \<Rightarrow> State list" where
  "reset_loop now p i k [] = []"
| "reset_loop now p i k (b # bs) =
     (if mappedPin b = p \<and> k \<noteq> i then cleared now b else b) # reset_loop now p i (Suc k) bs"

text \<open>
  \<open>reset(pin)\<close>. Every call of \<open>millis()\<close> inside one operation is taken to return the
  same value \<open>now\<close>.
\<close>

definition reset :: "ulong \<Rightarrow> uint8 \<Rightarrow> State list \<Rightarrow> State list" where
  "reset now p bs =
     (case getState p bs of
        None \<Rightarrow> bs
      | Some i \<Rightarrow> reset_loop now p i 0 (bs[i := cleared now (bs ! i)]))"

section \<open>Setup\<close>

text \<open>
  \<open>setup\<close> binds the registry and the callback and, for every element whose pin is not
  255 and whose \<open>mappedPin\<close> is not 255, stores \<open>getState(mappedPin)\<close> in
  \<open>mappedState\<close>. The lookup reads pins only, which the loop does not change, so every
  lookup sees the registry as it was passed in. Pin modes and serial output have no
  effect on the records.
\<close>

definition setup_button :: "State list \<Rightarrow> State \<Rightarrow> State" where
  "setup_button reg b =
     (if pin b \<noteq> 255 then
        (if mappedPin b \<noteq> 255 then b\<lparr>mappedState := getState (mappedPin b) reg\<rparr> else b)
      else b)"

definition setup_registry :: "State list \<Rightarrow> State list" where
  "setup_registry reg = map (setup_button reg) reg"

section \<open>The poll step\<close>

text \<open>
  The body of the first loop of \<open>update\<close> for one element whose pin is not 255, in
  the two parts the source has. \<open>reading\<close> is the value of \<open>digitalRead(button.pin)\<close>
  stored in a \<open>uint8_t\<close>. The first part runs from the comparison with \<open>lastReading\<close>
  to the assignment of \<open>lastReading\<close>: the debounce and the classification.
\<close>

definition debounce_step :: "ulong \<Rightarrow> uint8 \<Rightarrow> State \<Rightarrow> State" where
  "debounce_step now reading button =
     (let b1 = (if reading \<noteq> lastReading button then button\<lparr>lastChangeTime := now\<rparr>
                else button);
          b2 = (if now - lastChangeTime b1 > BUTTON_DEBOUNCE_TIME then
                  (if reading \<noteq> state b1 then
                     (if reading = PRESSED then
                        b1\<lparr>doublePress := (now - last_time b1 < BUTTON_DOUBLECLICK_TIME),
                           duration := 0, last_time := now\<rparr>
                      else if reading = RELEASED \<and> state b1 = PRESSED then
                        b1\<lparr>duration := now - last_time b1\<rparr>
                      else b1)\<lparr>state := reading\<rparr>
                   else b1)
                else b1)
      in b2\<lparr>lastReading := reading\<rparr>)"

text \<open>
  The second part: the long-press callback and its re-arming. \<open>cb\<close> says whether a
  callback is registered (\<open>buttonCallback\<close> is not null). The result is the record and
  whether the callback was invoked. The callback is a parameterless function of the
  application; it is taken not to touch the registry.
\<close>

definition longpress_step :: "bool \<Rightarrow> ulong \<Rightarrow> uint8 \<Rightarrow> State \<Rightarrow> State \<times> bool" where
  "longpress_step cb now reading button =
     (let fire = (reading = PRESSED \<and> state button = PRESSED \<and> cb \<and>
                  now - last_time button \<ge> BUTTON_LONGPRESS_TIME \<and>
                  now - lastLongPressCallback button \<ge> BUTTON_LONGPRESS_TIME);
          b4 = (if fire then button\<lparr>lastLongPressCallback := now\<rparr> else button);
          b5 = (if reading = RELEASED then b4\<lparr>lastLongPressCallback := 0\<rparr> else b4)
      in (b5, fire))"

definition update_button :: "bool \<Rightarrow> ulong \<Rightarrow> uint8 \<Rightarrow> State \<Rightarrow> State \<times> bool" where
  "update_button cb now reading button =
     longpress_step cb now reading (debounce_step now reading button)"

text \<open>
  The first loop: elements with pin 255 are skipped. \<open>rd\<close> is the input port
  (\<open>digitalRead\<close>). Every iteration reads and writes its own element only, so the
  loop is a map over the list. The second component lists, slot by slot, whether the
  callback was invoked for that slot.
\<close>

definition pass1_button :: "bool \<Rightarrow> ulong \<Rightarrow> (uint8 \<Rightarrow> uint8) \<Rightarrow> State \<Rightarrow> State \<times> bool" where
  "pass1_button cb now rd button =
     (if pin button = 255 then (button, False) else update_button cb now (rd (pin button)) button)"

definition pass1 :: "bool \<Rightarrow> ulong \<Rightarrow> (uint8 \<Rightarrow> uint8) \<Rightarrow> State list \<Rightarrow> State list \<times> bool list" where
  "pass1 cb now rd bs =
     (map (\<lambda>b. fst (pass1_button cb now rd b)) bs, map (\<lambda>b. snd (pass1_button cb now rd b)) bs)"

text \<open>
  One iteration of the second loop, for the element at index \<open>i\<close>: when its
  \<open>mappedState\<close> is not null and its \<open>state\<close> is \<open>PRESSED\<close>, four fields are written
  through the pointer. The loop runs over the array in place, so an iteration sees the
  writes of the earlier ones. An index outside the list stands for a pointer into another
  array (a registry bound by an earlier \<open>setup\<close>): the write does not reach this one.
\<close>

definition mirror_copy :: "State \<Rightarrow> State \<Rightarrow> State" where
  "mirror_copy src tgt =
     tgt\<lparr>state := state src, duration := duration src, doublePress := doublePress src,
         last_time := last_time src\<rparr>"

definition mirror_step :: "nat \<Rightarrow> State list \<Rightarrow> State list" where
  "mirror_step i bs =
     (let button = bs ! i in
      case mappedState button of
        None \<Rightarrow> bs
      | Some j \<Rightarrow> if state button = PRESSED then bs[j := mirror_copy button (bs ! j)] else bs)"

definition pass2 :: "State list \<Rightarrow> State list" where
  "pass2 bs = fold mirror_step [0..<length bs] bs"

definition update :: "bool \<Rightarrow> ulong \<Rightarrow> (uint8 \<Rightarrow> uint8) \<Rightarrow> State list \<Rightarrow> State list \<times> bool list" where
  "update cb now rd bs = (let (bs1, fired) = pass1 cb now rd bs in (pass2 bs1, fired))"

section \<open>Queries\<close>

text \<open>
  \<open>checkPress\<close>: \<open>button\<close> is the pointer (an index, or \<open>None\<close> for null). The result is
  the returned boolean and the registry afterwards; \<open>rst\<close> is the parameter \<open>reset\<close>.
\<close>

definition checkPress ::
  "nat option \<Rightarrow> ulong \<Rightarrow> ulong \<Rightarrow> bool \<Rightarrow> bool \<Rightarrow> ulong \<Rightarrow> State list \<Rightarrow> bool \<times> State list" where
  "checkPress button minDuration maxDuration requireDouble rst now bs =
     (case button of
        None \<Rightarrow> (False, bs)
      | Some i \<Rightarrow>
          (let b = bs ! i;
               durationOk = (duration b > minDuration \<and> (maxDuration = 0 \<or> duration b \<le> maxDuration));
               doubleOk = (\<not> requireDouble \<or> doublePress b);
               released = (state b = RELEASED \<and> duration b > 0 \<and>
                           now - last_time b > BUTTON_DOUBLECLICK_TIME)
           in if released \<and> durationOk \<and> doubleOk
              then (True, if rst then reset now (pin b) bs else bs)
              else (False, bs)))"

definition isPressed :: "uint8 \<Rightarrow> bool \<Rightarrow> ulong \<Rightarrow> State list \<Rightarrow> bool \<times> State list" where
  "isPressed p rst now bs = checkPress (getState p bs) 0 0 False rst now bs"

definition isPressedDouble :: "uint8 \<Rightarrow> bool \<Rightarrow> ulong \<Rightarrow> State list \<Rightarrow> bool \<times> State list" where
  "isPressedDouble p rst now bs = checkPress (getState p bs) 0 0 True rst now bs"

definition isShortPressed :: "uint8 \<Rightarrow> bool \<Rightarrow> ulong \<Rightarrow> State list \<Rightarrow> bool \<times> State list" where
  "isShortPressed p rst now bs =
     checkPress (getState p bs) 0 BUTTON_LONGPRESS_TIME False rst now bs"

definition isShortPressedDouble :: "uint8 \<Rightarrow> bool \<Rightarrow> ulong \<Rightarrow> State list \<Rightarrow> bool \<times> State list" where
  "isShortPressedDouble p rst now bs =
     checkPress (getState p bs) 0 BUTTON_LONGPRESS_TIME True rst now bs"

definition isLongPressed :: "uint8 \<Rightarrow> bool \<Rightarrow> ulong \<Rightarrow> State list \<Rightarrow> bool \<times> State list" where
  "isLongPressed p rst now bs =
     checkPress (getState p bs) BUTTON_LONGPRESS_TIME 0 False rst now bs"

definition isLongPressedDouble :: "uint8 \<Rightarrow> bool \<Rightarrow> ulong \<Rightarrow> State list \<Rightarrow> bool \<times> State list" where
  "isLongPressedDouble p rst now bs =
     checkPress (getState p bs) BUTTON_LONGPRESS_TIME 0 True rst now bs"

text \<open>The six predicates of the header, in the order it declares them.\<close>

datatype query = IsPressed | IsPressedDouble | IsShortPressed | IsShortPressedDouble
  | IsLongPressed | IsLongPressedDouble

fun run_query :: "query \<Rightarrow> uint8 \<Rightarrow> bool \<Rightarrow> ulong \<Rightarrow> State list \<Rightarrow> bool \<times> State list" where
  "run_query IsPressed = isPressed"
| "run_query IsPressedDouble = isPressedDouble"
| "run_query IsShortPressed = isShortPressed"
| "run_query IsShortPressedDouble = isShortPressedDouble"
| "run_query IsLongPressed = isLongPressed"
| "run_query IsLongPressedDouble = isLongPressedDouble"

section \<open>Clock and poll sequences\<close>

text \<open>
  \<open>millis()\<close> counts the milliseconds since the program started in an
  \<open>unsigned long\<close>: after \<open>t\<close> milliseconds it returns \<open>t\<close> modulo \<open>2 ^ 32\<close>.
\<close>

definition millis :: "nat \<Rightarrow> ulong" where
  "millis t = of_nat t"

text \<open>
  A sequence of polls seen from one button: each entry is the time of the poll and the
  level read on the button's pin. The result is the record at the end and the times at
  which the callback was invoked.
\<close>

fun run_button :: "bool \<Rightarrow> (nat \<times> uint8) list \<Rightarrow> State \<Rightarrow> State \<times> nat list" where
  "run_button cb [] b = (b, [])"
| "run_button cb ((t, r) # tr) b =
     (let (b1, fire) = update_button cb (millis t) r b;
          (b2, calls) = run_button cb tr b1
      in (b2, (if fire then [t] else []) @ calls))"

text \<open>
  A sequence of calls of \<open>update\<close>: each entry is the time of the call and the input
  port at that time. The result is the registry at the end and, in order, the time and
  the slot of every invocation of the callback.
\<close>

definition fired_slots :: "bool list \<Rightarrow> nat list" where
  "fired_slots fired = filter (\<lambda>i. fired ! i) [0..<length fired]"

fun run_update ::
  "bool \<Rightarrow> (nat \<times> (uint8 \<Rightarrow> uint8)) list \<Rightarrow> State list \<Rightarrow> State list \<times> (nat \<times> nat) list" where
  "run_update cb [] bs = (bs, [])"
| "run_update cb ((t, rd) # tr) bs =
     (let (bs1, fired) = update cb (millis t) rd bs;
          (bs2, calls) = run_update cb tr bs1
      in (bs2, map (\<lambda>i. (t, i)) (fired_slots fired) @ calls))"

definition calls_of :: "nat \<Rightarrow> (nat \<times> nat) list \<Rightarrow> nat list" where
  "calls_of i calls = map fst (filter (\<lambda>c. snd c = i) calls)"

definition readings_of :: "uint8 \<Rightarrow> (nat \<times> (uint8 \<Rightarrow> uint8)) list \<Rightarrow> (nat \<times> uint8) list" where
  "readings_of p tr = map (\<lambda>x. (fst x, snd x p)) tr"

text \<open>
  A raw reading that toggles faster than a window \<open>w\<close>: \<open>tc\<close> is the time of the poll
  that saw the last toggle and \<open>r\<close> the level read by the previous poll. Every poll comes
  less than \<open>w\<close> milliseconds after the last toggle, whether it sees a toggle itself or
  not. The sequence starts with a toggle.
\<close>

fun toggles_within :: "nat \<Rightarrow> nat \<Rightarrow> uint8 \<Rightarrow> (nat \<times> uint8) list \<Rightarrow> bool" where
  "toggles_within w tc r [] = True"
| "toggles_within w tc r ((t, x) # tr) =
     (tc \<le> t \<and> t - tc < w \<and> toggles_within w (if x \<noteq> r then t else tc) x tr)"

fun fast_toggling :: "nat \<Rightarrow> uint8 \<Rightarrow> (nat \<times> uint8) list \<Rightarrow> bool" where
  "fast_toggling w r0 [] = True"
| "fast_toggling w r0 ((t, x) # tr) = (x \<noteq> r0 \<and> toggles_within w t x tr)"

text \<open>
  A pin held at \<open>PRESSED\<close> while \<open>update\<close> is called once per millisecond, \<open>n\<close> times
  from time \<open>T\<close> on.
\<close>

definition every_ms :: "nat \<Rightarrow> (nat \<times> (uint8 \<Rightarrow> uint8)) list \<Rightarrow> bool" where
  "every_ms T tr = (map fst tr = [T..<T + length tr])"

definition held :: "uint8 \<Rightarrow> (nat \<times> (uint8 \<Rightarrow> uint8)) list \<Rightarrow> bool" where
  "held p tr = (\<forall>x \<in> set tr. snd x p = PRESSED)"

definition all_pressed :: "uint8 \<Rightarrow> uint8" where
  "all_pressed p = PRESSED"

definition hold_all :: "nat \<Rightarrow> nat \<Rightarrow> (nat \<times> (uint8 \<Rightarrow> uint8)) list" where
  "hold_all T n = map (\<lambda>t. (t, all_pressed)) [T..<T + n]"


text \<open>Every pin reads \<open>PRESSED\<close> but pin 3, which reads \<open>RELEASED\<close>.\<close>

definition pin3_released :: "uint8 \<Rightarrow> uint8" where
  "pin3_released p = (if p = 3 then RELEASED else PRESSED)"

text \<open>
  Three polls, 29 and 30 ms apart: pin 2 is held down, pin 3 bounces (pressed, released,
  pressed).
\<close>

definition bounce_trace :: "(nat \<times> (uint8 \<Rightarrow> uint8)) list" where
  "bounce_trace = [(1, all_pressed), (30, pin3_released), (60, all_pressed)]"

section \<open>The claims in the words of the specification\<close>

text \<open>
  The three gates of \<open>checkPress\<close> as the specification words them: the settle gate
  asks for at least \<open>BUTTON_DOUBLECLICK_TIME\<close> milliseconds since \<open>last_time\<close>.
\<close>

definition gates_as_specified :: "State \<Rightarrow> ulong \<Rightarrow> ulong \<Rightarrow> bool \<Rightarrow> ulong \<Rightarrow> bool" where
  "gates_as_specified b minDuration maxDuration requireDouble now =
     ((state b = RELEASED \<and> duration b > 0 \<and> now - last_time b \<ge> BUTTON_DOUBLECLICK_TIME) \<and>
      (duration b > minDuration \<and> (maxDuration = 0 \<or> duration b \<le> maxDuration)) \<and>
      (requireDouble \<longrightarrow> doublePress b))"


text \<open>
  What the specification says \<open>reset\<close> does to a record: \<open>b'\<close> is \<open>b\<close> with its
  transient fields cleared and its pin and mirror linkage kept.
\<close>

definition transient_cleared :: "ulong \<Rightarrow> State \<Rightarrow> State \<Rightarrow> bool" where
  "transient_cleared now b b' =
     (state b' = RELEASED \<and> \<not> doublePress b' \<and> duration b' = 0 \<and> last_time b' = 0 \<and>
      lastReading b' = RELEASED \<and> lastChangeTime b' = now \<and> lastLongPressCallback b' = 0 \<and>
      pin b' = pin b \<and> mappedPin b' = mappedPin b \<and> mappedState b' = mappedState b)"






section \<open>Example registries\<close>

text \<open>
  A button as the built-in registry declares it, on pin \<open>p\<close>, mapped to pin \<open>m\<close>
  (255 for no mapping).
\<close>

definition initial_button :: "uint8 \<Rightarrow> uint8 \<Rightarrow> State" where
  "initial_button p m =
     \<lparr>pin = p, state = RELEASED, doublePress = False, duration = 0, last_time = 0,
      lastReading = RELEASED, lastChangeTime = 0, lastLongPressCallback = 0,
      mappedPin = m, mappedState = None\<rparr>"

text \<open>A button on pin 2 after one press of 70 ms registered at time 1000.\<close>

definition pressed_once :: State where
  "pressed_once =
     \<lparr>pin = 2, state = RELEASED, doublePress = False, duration = 70, last_time = 1000,
      lastReading = RELEASED, lastChangeTime = 1070, lastLongPressCallback = 0,
      mappedPin = 255, mappedState = None\<rparr>"

text \<open>
  A registry in which pin 2 is mapped to pin 3, as \<open>BUTTON_CONFIRM\<close> is mapped to
  \<open>BUTTON_OK\<close> in the built-in one, after \<open>setup\<close>.
\<close>

definition mirror_registry :: "State list" where
  "mirror_registry = setup_registry [initial_button 2 3, initial_button 3 255]"


text \<open>
  Two records around the moment the clock wraps. The first is pressed since
  \<open>2 ^ 32 - 30\<close> and its raw reading went back to released at \<open>2 ^ 32 - 10\<close>. The
  second is held down since \<open>2 ^ 32 - 2500\<close> and the callback was last invoked for it at
  \<open>2 ^ 32 - 500\<close>.
\<close>

definition released_at_wrap :: State where
  "released_at_wrap =
     (initial_button 2 255)\<lparr>state := PRESSED, last_time := millis (2 ^ 32 - 30),
        lastChangeTime := millis (2 ^ 32 - 10)\<rparr>"

definition held_at_wrap :: State where
  "held_at_wrap =
     (initial_button 2 255)\<lparr>state := PRESSED, lastReading := PRESSED,
        last_time := millis (2 ^ 32 - 2500), lastChangeTime := millis (2 ^ 32 - 2551),
        lastLongPressCallback := millis (2 ^ 32 - 500)\<rparr>"

text \<open>Three buttons in a chain: pin 4 is mapped to pin 3 and pin 3 to pin 2.\<close>

definition chain_registry :: "State list" where
  "chain_registry =
     setup_registry
       [(initial_button 4 3)\<lparr>duration := 9\<rparr>, (initial_button 3 2)\<lparr>duration := 5\<rparr>, pressed_once]"

section \<open>Lookup, reset and query: basic facts\<close>

lemma find_pin_Some: "find_pin p bs = Some i \<Longrightarrow> i < length bs \<and> pin (bs ! i) = p"
  by (induction bs arbitrary: i) (auto split: if_splits option.splits)

lemma find_pin_None: "(find_pin p bs = None) = (p \<notin> pin ` set bs)"
  by (induction bs) (auto split: option.splits)


lemma length_reset_loop: "length (reset_loop now p i k bs) = length bs"
  by (induction bs arbitrary: k) auto

lemma nth_reset_loop:
  "j < length bs \<Longrightarrow>
   reset_loop now p i k bs ! j =
     (if mappedPin (bs ! j) = p \<and> k + j \<noteq> i then cleared now (bs ! j) else bs ! j)"
proof (induction bs arbitrary: k j)
  case Nil
  then show ?case by simp
next
  case (Cons b bs)
  show ?case
  proof (cases j)
    case 0
    then show ?thesis by simp
  next
    case (Suc j')
    with Cons.prems have "j' < length bs" by simp
    from Cons.IH [OF this, of "Suc k"] Suc show ?thesis by simp
  qed
qed

lemma cleared_fields:
  "pin (cleared now b) = pin b" "state (cleared now b) = RELEASED"
  "doublePress (cleared now b) = False" "duration (cleared now b) = 0"
  "last_time (cleared now b) = 0" "lastReading (cleared now b) = RELEASED"
  "lastChangeTime (cleared now b) = now" "lastLongPressCallback (cleared now b) = 0"
  "mappedPin (cleared now b) = mappedPin b" "mappedState (cleared now b) = mappedState b"
  by (simp_all add: cleared_def)

lemma cleared_idem: "cleared now (cleared now b) = cleared now b"
  by (simp add: cleared_def)

lemma length_reset: "length (reset now p bs) = length bs"
  by (simp add: reset_def length_reset_loop split: option.splits)

lemma nth_reset:
  assumes "getState p bs = Some i" "k < length bs"
  shows "reset now p bs ! k =
           (if k = i \<or> mappedPin (bs ! k) = p then cleared now (bs ! k) else bs ! k)"
proof -
  from assms(1) have i: "i < length bs"
    by (auto simp: getState_def dest: find_pin_Some split: if_splits)
  show ?thesis
    using assms i
    by (simp add: reset_def nth_reset_loop nth_list_update cleared_fields cleared_idem)
qed




lemma getState_SomeD: "getState p bs = Some i \<Longrightarrow> p \<noteq> 255 \<and> i < length bs \<and> pin (bs ! i) = p"
  by (auto simp: getState_def dest: find_pin_Some split: if_splits)

lemma getState_None: "(getState p bs = None) = (p = 255 \<or> p \<notin> pin ` set bs)"
  by (simp add: getState_def find_pin_None)

lemmas query_defs = isPressed_def isPressedDouble_def isShortPressed_def
  isShortPressedDouble_def isLongPressed_def isLongPressedDouble_def

lemma checkPress_None: "checkPress None minD maxD dbl rst now bs = (False, bs)"
  by (simp add: checkPress_def)

lemma checkPress_no_reset: "snd (checkPress button minD maxD dbl False now bs) = bs"
  by (simp add: checkPress_def Let_def split: option.splits)

lemma fst_checkPress:
  "fst (checkPress (Some i) minD maxD dbl rst now bs) =
     ((state (bs ! i) = RELEASED \<and> 0 < duration (bs ! i) \<and>
       BUTTON_DOUBLECLICK_TIME < now - last_time (bs ! i)) \<and>
      (minD < duration (bs ! i) \<and> (maxD = 0 \<or> duration (bs ! i) \<le> maxD)) \<and>
      (dbl \<longrightarrow> doublePress (bs ! i)))"
  by (auto simp: checkPress_def Let_def)


lemma millis_diff:
  assumes "t0 \<le> t" "t - t0 < 2 ^ 32"
  shows "unat (millis t - millis t0) = t - t0"
proof -
  have "millis t - millis t0 = (of_nat (t - t0) :: ulong)"
    using assms(1) by (simp add: millis_def)
  then show ?thesis
    using assms(2) by (simp add: unat_of_nat)
qed


section \<open>The poll step for one button: basic facts\<close>

lemma debounce_step_eq:
  "debounce_step now r b =
     (if r = lastReading b \<and> BUTTON_DEBOUNCE_TIME < now - lastChangeTime b \<and> r \<noteq> state b then
        (if r = PRESSED then
           b\<lparr>doublePress := (now - last_time b < BUTTON_DOUBLECLICK_TIME), duration := 0,
             last_time := now, state := r, lastReading := r\<rparr>
         else if r = RELEASED \<and> state b = PRESSED then
           b\<lparr>duration := now - last_time b, state := r, lastReading := r\<rparr>
         else b\<lparr>state := r, lastReading := r\<rparr>)
      else if r \<noteq> lastReading b then b\<lparr>lastChangeTime := now, lastReading := r\<rparr>
      else b\<lparr>lastReading := r\<rparr>)"
  by (simp add: debounce_step_def Let_def BUTTON_DEBOUNCE_TIME_def)

lemma fst_longpress_step:
  "state (fst (longpress_step cb now r b)) = state b"
  "duration (fst (longpress_step cb now r b)) = duration b"
  "doublePress (fst (longpress_step cb now r b)) = doublePress b"
  "last_time (fst (longpress_step cb now r b)) = last_time b"
  "lastReading (fst (longpress_step cb now r b)) = lastReading b"
  "lastChangeTime (fst (longpress_step cb now r b)) = lastChangeTime b"
  "pin (fst (longpress_step cb now r b)) = pin b"
  "mappedPin (fst (longpress_step cb now r b)) = mappedPin b"
  "mappedState (fst (longpress_step cb now r b)) = mappedState b"
  by (simp_all add: longpress_step_def Let_def)

lemma state_debounce_step:
  "state (debounce_step now r b) =
     (if r = lastReading b \<and> BUTTON_DEBOUNCE_TIME < now - lastChangeTime b then r else state b)"
  by (simp add: debounce_step_eq)

lemma state_update_button:
  "state (fst (update_button cb now r b)) =
     (if r = lastReading b \<and> BUTTON_DEBOUNCE_TIME < now - lastChangeTime b then r else state b)"
  by (simp add: update_button_def fst_longpress_step state_debounce_step)

lemma state_becomes_pressed:
  assumes "state b \<noteq> PRESSED" "state (fst (update_button cb now r b)) = PRESSED"
  shows "r = PRESSED \<and>
         fst (update_button cb now r b) =
           b\<lparr>doublePress := (now - last_time b < BUTTON_DOUBLECLICK_TIME), duration := 0,
             last_time := now, state := PRESSED, lastReading := PRESSED\<rparr>"
proof -
  from assms have c: "r = lastReading b" "BUTTON_DEBOUNCE_TIME < now - lastChangeTime b"
    "r = PRESSED"
    by (auto simp: state_update_button split: if_splits)
  from c(3) assms(1) have n: "r \<noteq> state b" by simp
  have "debounce_step now r b =
      b\<lparr>doublePress := (now - last_time b < BUTTON_DOUBLECLICK_TIME), duration := 0,
             last_time := now, state := PRESSED, lastReading := PRESSED\<rparr>"
    using c n by (simp add: debounce_step_eq)
  then show ?thesis
    using c(3) by (simp add: update_button_def longpress_step_def BUTTON_LONGPRESS_TIME_def
        PRESSED_def RELEASED_def)
qed

lemma state_becomes_released:
  assumes "state b = PRESSED" "state (fst (update_button cb now r b)) = RELEASED"
  shows "duration (fst (update_button cb now r b)) = now - last_time b"
proof -
  from assms have c: "r = lastReading b" "BUTTON_DEBOUNCE_TIME < now - lastChangeTime b"
    "r = RELEASED"
    by (auto simp: state_update_button PRESSED_def RELEASED_def split: if_splits)
  from c(3) assms(1) have n: "r \<noteq> state b" "r \<noteq> PRESSED"
    by (simp_all add: PRESSED_def RELEASED_def)
  show ?thesis
    using c n assms(1) by (simp add: update_button_def fst_longpress_step debounce_step_eq)
qed

lemma callback_fired:
  assumes "snd (update_button cb now r b)"
  shows "cb \<and> r = PRESSED \<and> state b = PRESSED \<and> BUTTON_LONGPRESS_TIME \<le> now - last_time b \<and>
         BUTTON_LONGPRESS_TIME \<le> now - lastLongPressCallback b \<and>
         unat BUTTON_LONGPRESS_TIME \<le> unat (now - last_time b)"
proof -
  let ?d = "debounce_step now r b"
  from assms have f: "cb" "r = PRESSED" "state ?d = PRESSED"
    "BUTTON_LONGPRESS_TIME \<le> now - last_time ?d"
    "BUTTON_LONGPRESS_TIME \<le> now - lastLongPressCallback ?d"
    by (auto simp: update_button_def longpress_step_def Let_def)
  have lpc: "lastLongPressCallback ?d = lastLongPressCallback b"
    by (simp add: debounce_step_eq)
  have nt: "\<not> (r = lastReading b \<and> BUTTON_DEBOUNCE_TIME < now - lastChangeTime b \<and> r \<noteq> state b)"
  proof
    assume "r = lastReading b \<and> BUTTON_DEBOUNCE_TIME < now - lastChangeTime b \<and> r \<noteq> state b"
    then have "last_time ?d = now"
      using f(2) by (simp add: debounce_step_eq)
    with f(4) show False
      by (simp add: BUTTON_LONGPRESS_TIME_def)
  qed
  then have same: "last_time ?d = last_time b" "state ?d = state b"
    by (auto simp: debounce_step_eq)
  from f lpc same show ?thesis
    by (simp add: word_le_nat_alt)
qed

section \<open>The second pass and sequences of polls: basic facts\<close>

lemma length_mirror_step: "length (mirror_step i bs) = length bs"
  by (simp add: mirror_step_def Let_def split: option.splits)

lemma nth_mirror_step:
  "mirror_step i bs ! m =
     (case mappedState (bs ! i) of
        None \<Rightarrow> bs ! m
      | Some j \<Rightarrow> if state (bs ! i) = PRESSED \<and> m = j \<and> j < length bs
                  then mirror_copy (bs ! i) (bs ! j) else bs ! m)"
proof (cases "mappedState (bs ! i)")
  case None
  then show ?thesis by (simp add: mirror_step_def)
next
  case (Some j)
  show ?thesis
  proof (cases "j < length bs")
    case True
    with Some show ?thesis
      by (simp add: mirror_step_def Let_def nth_list_update)
  next
    case False
    with Some show ?thesis
      by (simp add: mirror_step_def Let_def list_update_beyond)
  qed
qed

lemma mirror_copy_fields:
  "pin (mirror_copy s t) = pin t" "mappedPin (mirror_copy s t) = mappedPin t"
  "mappedState (mirror_copy s t) = mappedState t"
  by (simp_all add: mirror_copy_def)

lemma mappedState_mirror_step: "mappedState (mirror_step i bs ! m) = mappedState (bs ! m)"
  by (simp add: nth_mirror_step mirror_copy_fields split: option.splits)

lemma pin_mirror_step: "pin (mirror_step i bs ! m) = pin (bs ! m)"
  by (simp add: nth_mirror_step mirror_copy_fields split: option.splits)

lemma mirror_step_untouched:
  "mappedState (bs ! i) \<noteq> Some m \<Longrightarrow> mirror_step i bs ! m = bs ! m"
  by (auto simp: nth_mirror_step split: option.splits)

lemma length_fold_mirror: "length (fold mirror_step ks bs) = length bs"
  by (induction ks arbitrary: bs) (simp_all add: length_mirror_step)

lemma mappedState_fold_mirror:
  "mappedState (fold mirror_step ks bs ! m) = mappedState (bs ! m)"
  by (induction ks arbitrary: bs) (simp_all add: mappedState_mirror_step)

lemma pin_fold_mirror: "pin (fold mirror_step ks bs ! m) = pin (bs ! m)"
  by (induction ks arbitrary: bs) (simp_all add: pin_mirror_step)

lemma fold_mirror_untouched:
  "\<forall>k \<in> set ks. mappedState (bs ! k) \<noteq> Some m \<Longrightarrow> fold mirror_step ks bs ! m = bs ! m"
proof (induction ks arbitrary: bs)
  case Nil
  then show ?case by simp
next
  case (Cons k ks)
  have "fold mirror_step ks (mirror_step k bs) ! m = mirror_step k bs ! m"
    using Cons.prems by (intro Cons.IH) (simp add: mappedState_mirror_step)
  also have "\<dots> = bs ! m"
    using Cons.prems by (simp add: mirror_step_untouched)
  finally show ?case by simp
qed

lemma length_pass2: "length (pass2 bs) = length bs"
  by (simp add: pass2_def length_fold_mirror)

lemma pass2_untouched:
  "\<forall>k < length bs. mappedState (bs ! k) \<noteq> Some m \<Longrightarrow> pass2 bs ! m = bs ! m"
  by (simp add: pass2_def fold_mirror_untouched)



lemma debounce_step_fields:
  "pin (debounce_step now r b) = pin b" "mappedPin (debounce_step now r b) = mappedPin b"
  "mappedState (debounce_step now r b) = mappedState b"
  "lastReading (debounce_step now r b) = r"
  "lastLongPressCallback (debounce_step now r b) = lastLongPressCallback b"
  "lastChangeTime (debounce_step now r b) = (if r \<noteq> lastReading b then now else lastChangeTime b)"
  by (simp_all add: debounce_step_eq)

lemma update_button_fields:
  "pin (fst (update_button cb now r b)) = pin b"
  "mappedPin (fst (update_button cb now r b)) = mappedPin b"
  "mappedState (fst (update_button cb now r b)) = mappedState b"
  "lastReading (fst (update_button cb now r b)) = r"
  "lastChangeTime (fst (update_button cb now r b)) =
     (if r \<noteq> lastReading b then now else lastChangeTime b)"
  by (simp_all add: update_button_def fst_longpress_step debounce_step_fields)

lemma pass1_button_fields:
  "pin (fst (pass1_button cb now rd b)) = pin b"
  "mappedState (fst (pass1_button cb now rd b)) = mappedState b"
  by (simp_all add: pass1_button_def update_button_fields)

lemma length_update: "length (fst (update cb now rd bs)) = length bs"
  by (simp add: update_def pass1_def length_pass2)

lemma length_fired: "length (snd (update cb now rd bs)) = length bs"
  by (simp add: update_def pass1_def)

lemma nth_fired:
  "i < length bs \<Longrightarrow> snd (update cb now rd bs) ! i = snd (pass1_button cb now rd (bs ! i))"
  by (simp add: update_def pass1_def)

lemma mappedState_update:
  "k < length bs \<Longrightarrow> mappedState (fst (update cb now rd bs) ! k) = mappedState (bs ! k)"
  by (simp add: update_def pass1_def pass2_def mappedState_fold_mirror pass1_button_fields)

lemma pin_update: "k < length bs \<Longrightarrow> pin (fst (update cb now rd bs) ! k) = pin (bs ! k)"
  by (simp add: update_def pass1_def pass2_def pin_fold_mirror pass1_button_fields)

lemma update_untargeted:
  assumes "i < length bs" "\<forall>k < length bs. mappedState (bs ! k) \<noteq> Some i"
  shows "fst (update cb now rd bs) ! i = fst (pass1_button cb now rd (bs ! i))"
proof -
  let ?bs1 = "map (\<lambda>b. fst (pass1_button cb now rd b)) bs"
  have "\<forall>k < length ?bs1. mappedState (?bs1 ! k) \<noteq> Some i"
    using assms(2) by (simp add: pass1_button_fields)
  then have "pass2 ?bs1 ! i = ?bs1 ! i"
    by (rule pass2_untouched)
  then show ?thesis
    using assms(1) by (simp add: update_def pass1_def)
qed

lemma filter_eq_index:
  "filter (\<lambda>k. k = i \<and> P k) [0..<n] = (if i < n \<and> P i then [i] else [])"
  by (induction n) (auto simp: less_Suc_eq)

lemma calls_of_fired:
  "calls_of i (map (\<lambda>k. (t, k)) (fired_slots fired) @ calls) =
     (if i < length fired \<and> fired ! i then [t] else []) @ calls_of i calls"
proof -
  have "filter (\<lambda>k. k = i) (filter (\<lambda>k. fired ! k) [0..<length fired]) =
        filter (\<lambda>k. k = i \<and> fired ! k) [0..<length fired]"
    by (simp add: conj_commute)
  then show ?thesis
    by (simp add: calls_of_def fired_slots_def filter_map o_def filter_eq_index)
qed

lemma run_update_untargeted:
  assumes "i < length bs" "\<forall>k < length bs. mappedState (bs ! k) \<noteq> Some i"
    and "pin (bs ! i) \<noteq> 255"
  shows "fst (run_update cb tr bs) ! i = fst (run_button cb (readings_of (pin (bs ! i)) tr) (bs ! i)) \<and>
         calls_of i (snd (run_update cb tr bs)) =
           snd (run_button cb (readings_of (pin (bs ! i)) tr) (bs ! i)) \<and>
         length (fst (run_update cb tr bs)) = length bs"
  using assms
proof (induction tr arbitrary: bs)
  case Nil
  then show ?case by (simp add: readings_of_def calls_of_def)
next
  case (Cons x tr)
  obtain t rd where x: "x = (t, rd)" by (cases x)
  let ?bs1 = "fst (update cb (millis t) rd bs)"
  let ?fired = "snd (update cb (millis t) rd bs)"
  let ?p = "pin (bs ! i)"
  have st: "?bs1 ! i = fst (update_button cb (millis t) (rd ?p) (bs ! i))"
    using Cons.prems by (simp add: update_untargeted pass1_button_def)
  have fi: "?fired ! i = snd (update_button cb (millis t) (rd ?p) (bs ! i))"
    using Cons.prems by (simp add: nth_fired pass1_button_def)
  have len: "length ?bs1 = length bs"
    by (rule length_update)
  have p1: "pin (?bs1 ! i) = ?p"
    using Cons.prems by (simp add: pin_update)
  have "\<forall>k < length ?bs1. mappedState (?bs1 ! k) \<noteq> Some i"
    using Cons.prems(2) by (simp add: len mappedState_update)
  with Cons.prems p1 len
  have IH: "fst (run_update cb tr ?bs1) ! i = fst (run_button cb (readings_of ?p tr) (?bs1 ! i)) \<and>
         calls_of i (snd (run_update cb tr ?bs1)) =
           snd (run_button cb (readings_of ?p tr) (?bs1 ! i)) \<and>
         length (fst (run_update cb tr ?bs1)) = length ?bs1"
    using Cons.IH [of ?bs1] by simp
  show ?case
    using IH Cons.prems(1)
    by (simp add: x readings_of_def split_beta Let_def calls_of_fired length_fired st fi len)
qed

lemma run_button_append:
  "run_button cb (xs @ ys) b =
     (fst (run_button cb ys (fst (run_button cb xs b))),
      snd (run_button cb xs b) @ snd (run_button cb ys (fst (run_button cb xs b))))"
proof (induction xs arbitrary: b)
  case Nil
  then show ?case by simp
next
  case (Cons x xs)
  obtain t r where x: "x = (t, r)" by (cases x)
  show ?case
    by (simp add: x split_beta Cons.IH)
qed

lemma toggles_within_take: "toggles_within w tc r tr \<Longrightarrow> toggles_within w tc r (take n tr)"
proof (induction tr arbitrary: tc r n)
  case Nil
  then show ?case by simp
next
  case (Cons x tr)
  then show ?case
    by (cases x; cases n) auto
qed

lemma fast_toggling_take: "fast_toggling w r tr \<Longrightarrow> fast_toggling w r (take n tr)"
proof (cases tr)
  case Nil
  then show ?thesis by simp
next
  case (Cons x xs)
  assume "fast_toggling w r tr"
  with Cons show ?thesis
    by (cases x; cases n) (auto intro: toggles_within_take)
qed

lemma toggles_within_state:
  assumes "toggles_within (unat BUTTON_DEBOUNCE_TIME) tc r tr"
    and "lastReading b = r" "lastChangeTime b = millis tc"
  shows "state (fst (run_button cb tr b)) = state b"
  using assms
proof (induction tr arbitrary: tc r b)
  case Nil
  then show ?case by simp
next
  case (Cons x tr)
  obtain t y where x: "x = (t, y)" by (cases x)
  let ?b1 = "fst (update_button cb (millis t) y b)"
  from Cons.prems x have t: "tc \<le> t" "t - tc < unat BUTTON_DEBOUNCE_TIME"
    and rest: "toggles_within (unat BUTTON_DEBOUNCE_TIME) (if y \<noteq> r then t else tc) y tr"
    by simp_all
  have "unat (millis t - millis tc) = t - tc"
    using t by (intro millis_diff) (simp_all add: BUTTON_DEBOUNCE_TIME_def)
  with t have "\<not> BUTTON_DEBOUNCE_TIME < millis t - lastChangeTime b"
    by (simp add: word_less_nat_alt Cons.prems)
  then have s1: "state ?b1 = state b"
    by (simp add: state_update_button)
  have "lastReading ?b1 = y"
    and "lastChangeTime ?b1 = millis (if y \<noteq> r then t else tc)"
    by (simp_all add: update_button_fields Cons.prems)
  with rest have "state (fst (run_button cb tr ?b1)) = state ?b1"
    by (rule Cons.IH)
  with s1 show ?case
    by (simp add: x split_beta)
qed

lemma fast_toggling_state:
  assumes "fast_toggling (unat BUTTON_DEBOUNCE_TIME) (lastReading b) tr"
  shows "state (fst (run_button cb tr b)) = state b"
proof (cases tr)
  case Nil
  then show ?thesis by simp
next
  case (Cons x xs)
  obtain t y where x: "x = (t, y)" by (cases x)
  let ?b1 = "fst (update_button cb (millis t) y b)"
  from assms Cons x have y: "y \<noteq> lastReading b"
    and rest: "toggles_within (unat BUTTON_DEBOUNCE_TIME) t y xs"
    by simp_all
  from y have s1: "state ?b1 = state b"
    by (simp add: state_update_button)
  have "lastReading ?b1 = y" and "lastChangeTime ?b1 = millis t"
    using y by (simp_all add: update_button_fields)
  with rest have "state (fst (run_button cb xs ?b1)) = state ?b1"
    by (rule toggles_within_state)
  with s1 show ?thesis
    by (simp add: Cons x split_beta)
qed

lemma readings_of_take: "readings_of p (take n tr) = take n (readings_of p tr)"
  by (simp add: readings_of_def take_map)

lemma lastReading_same: "lastReading b = r \<Longrightarrow> b\<lparr>lastReading := r\<rparr> = b"
  by (cases b) simp

lemma first_poll_pressed:
  assumes "state b = RELEASED" "lastReading b = RELEASED"
  shows "update_button cb now PRESSED b = (b\<lparr>lastChangeTime := now, lastReading := PRESSED\<rparr>, False)"
  using assms
  by (simp add: update_button_def debounce_step_eq longpress_step_def PRESSED_def RELEASED_def)

lemma waiting_poll:
  assumes "state b = RELEASED" "lastReading b = PRESSED"
    and "unat (now - lastChangeTime b) \<le> unat BUTTON_DEBOUNCE_TIME"
  shows "update_button cb now PRESSED b = (b, False)"
proof -
  from assms(3) have "\<not> BUTTON_DEBOUNCE_TIME < now - lastChangeTime b"
    by (simp add: word_less_nat_alt)
  then have "debounce_step now PRESSED b = b"
    using assms(2) by (simp add: debounce_step_eq lastReading_same)
  then show ?thesis
    using assms(1) by (simp add: update_button_def longpress_step_def PRESSED_def RELEASED_def)
qed

lemma registering_poll:
  assumes "state b = RELEASED" "lastReading b = PRESSED"
    and "unat BUTTON_DEBOUNCE_TIME < unat (now - lastChangeTime b)"
  shows "update_button cb now PRESSED b =
     (b\<lparr>doublePress := (now - last_time b < BUTTON_DOUBLECLICK_TIME), duration := 0,
        last_time := now, state := PRESSED, lastReading := PRESSED\<rparr>, False)"
proof -
  from assms(3) have "BUTTON_DEBOUNCE_TIME < now - lastChangeTime b"
    by (simp add: word_less_nat_alt)
  then have "debounce_step now PRESSED b =
     b\<lparr>doublePress := (now - last_time b < BUTTON_DOUBLECLICK_TIME), duration := 0,
        last_time := now, state := PRESSED, lastReading := PRESSED\<rparr>"
    using assms(1,2) by (simp add: debounce_step_eq PRESSED_def RELEASED_def)
  then show ?thesis
    by (simp add: update_button_def longpress_step_def PRESSED_def RELEASED_def
        BUTTON_LONGPRESS_TIME_def)
qed

lemma held_poll:
  assumes "state b = PRESSED" "lastReading b = PRESSED"
  shows "update_button cb now PRESSED b =
     (if cb \<and> unat BUTTON_LONGPRESS_TIME \<le> unat (now - last_time b) \<and>
         unat BUTTON_LONGPRESS_TIME \<le> unat (now - lastLongPressCallback b)
      then (b\<lparr>lastLongPressCallback := now\<rparr>, True) else (b, False))"
proof -
  have "debounce_step now PRESSED b = b"
    using assms by (simp add: debounce_step_eq lastReading_same)
  then show ?thesis
    using assms(1)
    by (auto simp: update_button_def longpress_step_def Let_def PRESSED_def RELEASED_def
        word_le_nat_alt)
qed

lemma quiet_run:
  assumes "\<And>t. a \<le> t \<Longrightarrow> t < a + n \<Longrightarrow> update_button cb (millis t) r b = (b, False)"
  shows "run_button cb (map (\<lambda>t. (t, r)) [a..<a + n]) b = (b, [])"
  using assms
proof (induction n arbitrary: a)
  case 0
  then show ?case by simp
next
  case (Suc n)
  have l: "[a..<a + Suc n] = a # [Suc a..<Suc a + n]"
    by (simp add: upt_conv_Cons)
  have u: "update_button cb (millis a) r b = (b, False)"
    by (rule Suc.prems) simp_all
  have "run_button cb (map (\<lambda>t. (t, r)) [Suc a..<Suc a + n]) b = (b, [])"
    by (rule Suc.IH) (simp add: Suc.prems)
  with u show ?case
    by (simp only: l) simp
qed

section \<open>Holding a button down: basic facts\<close>

lemma upt_mid:
  "a \<le> m \<Longrightarrow> m < c \<Longrightarrow> a' = m \<Longrightarrow> s = Suc m \<Longrightarrow> [a..<c] = [a..<a'] @ m # [s..<c]"
  using upt_add_eq_append [of a m "c - m"] by (simp add: upt_conv_Cons)

lemma upt_cut:
  "a \<le> m \<Longrightarrow> m \<le> c \<Longrightarrow> m' = m \<Longrightarrow> c' = c \<Longrightarrow> [a..<c] = [a..<m] @ [m'..<c']"
  using upt_add_eq_append [of a m "c - m"] by simp

lemma run_button_single:
  "run_button cb [(t, r)] b =
     (fst (update_button cb (millis t) r b), if snd (update_button cb (millis t) r b) then [t] else [])"
  by (simp add: split_beta)

lemma registration_run:
  assumes "state b = RELEASED" "lastReading b = RELEASED"
  shows "run_button cb (map (\<lambda>t. (t, PRESSED)) [T..<T + 52]) b =
     (b\<lparr>lastChangeTime := millis T,
        doublePress := (millis (T + 51) - last_time b < BUTTON_DOUBLECLICK_TIME),
        duration := 0, last_time := millis (T + 51), state := PRESSED,
        lastReading := PRESSED\<rparr>, [])"
proof -
  define b1 where "b1 = b\<lparr>lastChangeTime := millis T, lastReading := PRESSED\<rparr>"
  define b2 where "b2 = b1\<lparr>doublePress := (millis (T + 51) - last_time b1 < BUTTON_DOUBLECLICK_TIME),
        duration := 0, last_time := millis (T + 51), state := PRESSED, lastReading := PRESSED\<rparr>"
  have b1: "state b1 = RELEASED" "lastReading b1 = PRESSED" "lastChangeTime b1 = millis T"
    using assms by (simp_all add: b1_def)
  have e1: "[T..<T + 52] = [T..<T] @ T # [T + 1..<T + 52]"
    by (rule upt_mid) simp_all
  have e2: "[T + 1..<T + 52] = [T + 1..<T + 1 + 50] @ (T + 51) # [T + 52..<T + 52]"
    by (rule upt_mid) simp_all
  have l: "[T..<T + 52] = [T] @ [T + 1..<T + 1 + 50] @ [T + 51]"
    by (simp only: e1 e2 upt_conv_Nil [OF order_refl] append_Nil append_Cons)
  have s0: "run_button cb [(T, PRESSED)] b = (b1, [])"
    using assms by (simp add: run_button_single first_poll_pressed b1_def)
  have s1: "run_button cb (map (\<lambda>t. (t, PRESSED)) [T + 1..<T + 1 + 50]) b1 = (b1, [])"
  proof (rule quiet_run)
    fix t assume t: "T + 1 \<le> t" "t < T + 1 + 50"
    then have "unat (millis t - millis T) = t - T"
      by (intro millis_diff) simp_all
    with t show "update_button cb (millis t) PRESSED b1 = (b1, False)"
      using b1 by (intro waiting_poll) (simp_all add: BUTTON_DEBOUNCE_TIME_def)
  qed
  have "unat (millis (T + 51) - millis T) = T + 51 - T"
    by (intro millis_diff) simp_all
  then have "update_button cb (millis (T + 51)) PRESSED b1 = (b2, False)"
    using b1 unfolding b2_def by (intro registering_poll) (simp_all add: BUTTON_DEBOUNCE_TIME_def)
  then have s2: "run_button cb [(T + 51, PRESSED)] b1 = (b2, [])"
    by (simp add: run_button_single)
  have "run_button cb (map (\<lambda>t. (t, PRESSED)) [T..<T + 52]) b = (b2, [])"
    by (simp only: l map_append run_button_append list.map s0 s1 s2 fst_conv snd_conv append_Nil)
  then show ?thesis
    by (simp add: b2_def b1_def)
qed

lemma held_run:
  assumes "state b = PRESSED" "lastReading b = PRESSED" "last_time b = millis R"
    and "lastLongPressCallback b = 0" "1000 \<le> unat (millis (R + 1000))"
  shows "run_button True (map (\<lambda>t. (t, PRESSED)) [R + 1..<R + 1 + 3000]) b =
     (b\<lparr>lastLongPressCallback := millis (R + 3000)\<rparr>, [R + 1000, R + 2000, R + 3000])"
proof -
  define b3 where "b3 = b\<lparr>lastLongPressCallback := millis (R + 1000)\<rparr>"
  define b4 where "b4 = b\<lparr>lastLongPressCallback := millis (R + 2000)\<rparr>"
  define b5 where "b5 = b\<lparr>lastLongPressCallback := millis (R + 3000)\<rparr>"
  have f: "state b3 = PRESSED" "lastReading b3 = PRESSED" "last_time b3 = millis R"
    "lastLongPressCallback b3 = millis (R + 1000)"
    "state b4 = PRESSED" "lastReading b4 = PRESSED" "last_time b4 = millis R"
    "lastLongPressCallback b4 = millis (R + 2000)"
    using assms by (simp_all add: b3_def b4_def)
  have u3: "b3\<lparr>lastLongPressCallback := x\<rparr> = b\<lparr>lastLongPressCallback := x\<rparr>"
    and u4: "b4\<lparr>lastLongPressCallback := x\<rparr> = b\<lparr>lastLongPressCallback := x\<rparr>" for x
    by (simp_all add: b3_def b4_def)
  have d: "unat (millis t - millis t0) = t - t0" if "t0 \<le> t" "t - t0 \<le> 4000" for t t0
    using that by (intro millis_diff) simp_all
  have L: "unat BUTTON_LONGPRESS_TIME = 1000"
    by (simp add: BUTTON_LONGPRESS_TIME_def)
  have e1: "[R + 1..<R + 1 + 3000] = [R + 1..<R + 1 + 999] @ (R + 1000) # [R + 1001..<R + 1 + 3000]"
    by (rule upt_mid) simp_all
  have e2: "[R + 1001..<R + 1 + 3000] =
      [R + 1001..<R + 1001 + 999] @ (R + 2000) # [R + 2001..<R + 1 + 3000]"
    by (rule upt_mid) simp_all
  have e3: "[R + 2001..<R + 1 + 3000] =
      [R + 2001..<R + 2001 + 999] @ (R + 3000) # [R + 1 + 3000..<R + 1 + 3000]"
    by (rule upt_mid) simp_all
  have l: "[R + 1..<R + 1 + 3000] =
      [R + 1..<R + 1 + 999] @ [R + 1000] @ [R + 1001..<R + 1001 + 999] @ [R + 2000] @
      [R + 2001..<R + 2001 + 999] @ [R + 3000]"
    by (simp only: e1 e2 e3 upt_conv_Nil [OF order_refl] append_Nil append_Cons)
  have q1: "run_button True (map (\<lambda>t. (t, PRESSED)) [R + 1..<R + 1 + 999]) b = (b, [])"
  proof (rule quiet_run)
    fix t assume t: "R + 1 \<le> t" "t < R + 1 + 999"
    then have "unat (millis t - millis R) = t - R"
      by (intro d) simp_all
    moreover from t have "t - R < 1000"
      by arith
    ultimately show "update_button True (millis t) PRESSED b = (b, False)"
      using assms by (simp add: held_poll L)
  qed
  have "unat (millis (R + 1000) - millis R) = R + 1000 - R"
    by (intro d) simp_all
  then have "update_button True (millis (R + 1000)) PRESSED b = (b3, True)"
    using assms by (simp add: held_poll L b3_def)
  then have s1: "run_button True [(R + 1000, PRESSED)] b = (b3, [R + 1000])"
    by (simp add: run_button_single)
  have q2: "run_button True (map (\<lambda>t. (t, PRESSED)) [R + 1001..<R + 1001 + 999]) b3 = (b3, [])"
  proof (rule quiet_run)
    fix t assume t: "R + 1001 \<le> t" "t < R + 1001 + 999"
    then have "unat (millis t - millis (R + 1000)) = t - (R + 1000)"
      by (intro d) simp_all
    moreover from t have "t - (R + 1000) < 1000"
      by arith
    ultimately show "update_button True (millis t) PRESSED b3 = (b3, False)"
      using f by (simp add: held_poll L)
  qed
  have "unat (millis (R + 2000) - millis R) = R + 2000 - R"
    and "unat (millis (R + 2000) - millis (R + 1000)) = R + 2000 - (R + 1000)"
    by (intro d; simp)+
  then have "update_button True (millis (R + 2000)) PRESSED b3 = (b4, True)"
    using f by (simp add: held_poll L u3 b4_def)
  then have s2: "run_button True [(R + 2000, PRESSED)] b3 = (b4, [R + 2000])"
    by (simp add: run_button_single)
  have q3: "run_button True (map (\<lambda>t. (t, PRESSED)) [R + 2001..<R + 2001 + 999]) b4 = (b4, [])"
  proof (rule quiet_run)
    fix t assume t: "R + 2001 \<le> t" "t < R + 2001 + 999"
    then have "unat (millis t - millis (R + 2000)) = t - (R + 2000)"
      by (intro d) simp_all
    moreover from t have "t - (R + 2000) < 1000"
      by arith
    ultimately show "update_button True (millis t) PRESSED b4 = (b4, False)"
      using f by (simp add: held_poll L)
  qed
  have "unat (millis (R + 3000) - millis R) = R + 3000 - R"
    and "unat (millis (R + 3000) - millis (R + 2000)) = R + 3000 - (R + 2000)"
    by (intro d; simp)+
  then have "update_button True (millis (R + 3000)) PRESSED b4 = (b5, True)"
    using f by (simp add: held_poll L u4 b5_def)
  then have s3: "run_button True [(R + 3000, PRESSED)] b4 = (b5, [R + 3000])"
    by (simp add: run_button_single)
  have "run_button True (map (\<lambda>t. (t, PRESSED)) [R + 1..<R + 1 + 3000]) b =
      (b5, [R + 1000, R + 2000, R + 3000])"
    by (simp only: l map_append run_button_append list.map q1 s1 q2 s2 q3 s3 fst_conv snd_conv)
      simp
  then show ?thesis
    by (simp only: b5_def)
qed

lemma full_hold_run:
  assumes "state b = RELEASED" "lastReading b = RELEASED" "lastLongPressCallback b = 0"
    and "1000 \<le> unat (millis (T + 1051))"
  shows "snd (run_button True (map (\<lambda>t. (t, PRESSED)) [T..<T + 3052]) b) =
           [T + 1051, T + 2051, T + 3051]"
proof -
  define b2 where "b2 = b\<lparr>lastChangeTime := millis T,
        doublePress := (millis (T + 51) - last_time b < BUTTON_DOUBLECLICK_TIME),
        duration := 0, last_time := millis (T + 51), state := PRESSED,
        lastReading := PRESSED\<rparr>"
  have r: "run_button True (map (\<lambda>t. (t, PRESSED)) [T..<T + 52]) b = (b2, [])"
    unfolding b2_def using assms(1,2) by (rule registration_run)
  have b2: "state b2 = PRESSED" "lastReading b2 = PRESSED" "last_time b2 = millis (T + 51)"
    "lastLongPressCallback b2 = 0"
    using assms(3) by (simp_all add: b2_def)
  have c: "1000 \<le> unat (millis (T + 51 + 1000))"
    using assms(4) by (simp add: add.assoc)
  have h: "run_button True (map (\<lambda>t. (t, PRESSED)) [T + 51 + 1..<T + 51 + 1 + 3000]) b2 =
     (b2\<lparr>lastLongPressCallback := millis (T + 51 + 3000)\<rparr>,
      [T + 51 + 1000, T + 51 + 2000, T + 51 + 3000])"
    using b2 c by (rule held_run)
  have l: "[T..<T + 3052] = [T..<T + 52] @ [T + 51 + 1..<T + 51 + 1 + 3000]"
    by (rule upt_cut) simp_all
  show ?thesis
    by (simp only: l map_append run_button_append r h fst_conv snd_conv) (simp add: add.assoc)
qed

lemma run_button_calls_subset: "set (snd (run_button cb tr b)) \<subseteq> fst ` set tr"
proof (induction tr arbitrary: b)
  case Nil
  then show ?case by simp
next
  case (Cons x tr)
  obtain t r where x: "x = (t, r)" by (cases x)
  show ?case
    using Cons.IH [of "fst (update_button cb (millis t) r b)"]
    by (auto simp: x split_beta)
qed

lemma calls_take:
  assumes "map fst tr = [T..<T + length tr]"
  shows "snd (run_button cb (take n tr) b) = filter (\<lambda>t. t < T + n) (snd (run_button cb tr b))"
proof -
  let ?b1 = "fst (run_button cb (take n tr) b)"
  let ?c1 = "snd (run_button cb (take n tr) b)"
  let ?c2 = "snd (run_button cb (drop n tr) ?b1)"
  have "run_button cb (take n tr @ drop n tr) b = (fst (run_button cb (drop n tr) ?b1), ?c1 @ ?c2)"
    by (rule run_button_append)
  then have full: "snd (run_button cb tr b) = ?c1 @ ?c2"
    by simp
  have "fst ` set (take n tr) = set (take n (map fst tr))"
    by (simp add: take_map)
  also have "\<dots> \<subseteq> {t. t < T + n}"
  proof (cases "n \<le> length tr")
    case True
    then show ?thesis by (auto simp: assms)
  next
    case False
    then show ?thesis by (auto simp: assms)
  qed
  finally have 1: "\<forall>t \<in> set ?c1. t < T + n"
    using run_button_calls_subset [of cb "take n tr" b] by blast
  have "fst ` set (drop n tr) = set (drop n (map fst tr))"
    by (simp add: drop_map)
  also have "\<dots> \<subseteq> {t. \<not> t < T + n}"
    by (auto simp: assms)
  finally have 2: "\<forall>t \<in> set ?c2. \<not> t < T + n"
    using run_button_calls_subset [of cb "drop n tr" ?b1] by blast
  from 1 2 show ?thesis
    by (simp add: full)
qed

lemma readings_of_held:
  assumes "every_ms T tr" "held p tr"
  shows "readings_of p tr = map (\<lambda>t. (t, PRESSED)) [T..<T + length tr]"
proof -
  have "readings_of p tr = map (\<lambda>x. (fst x, PRESSED)) tr"
    using assms(2) by (simp add: readings_of_def held_def)
  also have "\<dots> = map (\<lambda>t. (t, PRESSED)) (map fst tr)"
    by (simp only: map_map o_def)
  finally have r: "readings_of p tr = map (\<lambda>t. (t, PRESSED)) (map fst tr)" .
  from assms(1) have m: "map fst tr = [T..<T + length tr]"
    by (simp only: every_ms_def)
  show ?thesis
    by (simp only: r m)
qed

lemma held_registry:
  assumes "i < length bs" "pin (bs ! i) \<noteq> 255" "\<forall>k < length bs. mappedState (bs ! k) \<noteq> Some i"
    and "state (bs ! i) = RELEASED" "lastReading (bs ! i) = RELEASED"
      "lastLongPressCallback (bs ! i) = 0"
    and "every_ms T tr" "held (pin (bs ! i)) tr" "length tr = 3052"
    and "1000 \<le> unat (millis (T + 1051))"
  shows "calls_of i (snd (run_update True (take n tr) bs)) =
           filter (\<lambda>t. t < T + n) [T + 1051, T + 2051, T + 3051]"
    and "state (fst (run_update True (take 52 tr) bs) ! i) = PRESSED"
    and "last_time (fst (run_update True (take 52 tr) bs) ! i) = millis (T + 51)"
proof -
  let ?p = "pin (bs ! i)"
  let ?f = "\<lambda>t. (t, PRESSED)"
  have rd: "readings_of ?p tr = map ?f [T..<T + 3052]"
    using readings_of_held [OF assms(7,8)] assms(9) by simp
  have proj: "fst (run_update True (take m tr) bs) ! i =
        fst (run_button True (take m (map ?f [T..<T + 3052])) (bs ! i))"
    "calls_of i (snd (run_update True (take m tr) bs)) =
        snd (run_button True (take m (map ?f [T..<T + 3052])) (bs ! i))" for m
    using run_update_untargeted [OF assms(1,3,2), of True "take m tr"]
    by (simp_all add: readings_of_take rd)
  have fs: "map fst (map ?f [T..<T + 3052]) = [T..<T + length (map ?f [T..<T + 3052])]"
    by (simp add: o_def)
  show "calls_of i (snd (run_update True (take n tr) bs)) =
           filter (\<lambda>t. t < T + n) [T + 1051, T + 2051, T + 3051]"
    by (simp only: proj calls_take [OF fs] full_hold_run [OF assms(4,5,6,10)])
  have "take 52 (map ?f [T..<T + 3052]) = map ?f [T..<T + 52]"
    by (simp add: take_map)
  then have "fst (run_update True (take 52 tr) bs) ! i =
      fst (run_button True (map ?f [T..<T + 52]) (bs ! i))"
    by (simp only: proj)
  then show "state (fst (run_update True (take 52 tr) bs) ! i) = PRESSED"
    and "last_time (fst (run_update True (take 52 tr) bs) ! i) = millis (T + 51)"
    by (simp_all add: registration_run [OF assms(4,5)])
qed

lemma hold_all_facts:
  "every_ms T (hold_all T n)" "held p (hold_all T n)" "length (hold_all T n) = n"
  "m \<le> n \<Longrightarrow> take m (hold_all T n) = hold_all T m"
  by (simp_all add: every_ms_def held_def hold_all_def all_pressed_def o_def take_map)

section \<open>Found records, the frame of queries and unused slots: basic facts\<close>

lemma find_pin_least: "find_pin p bs = Some i \<Longrightarrow> j < i \<Longrightarrow> pin (bs ! j) \<noteq> p"
proof (induction bs arbitrary: i j)
  case Nil
  then show ?case by simp
next
  case (Cons b bs)
  show ?case
  proof (cases "pin b = p")
    case True
    with Cons.prems show ?thesis by simp
  next
    case False
    with Cons.prems obtain i' where i': "find_pin p bs = Some i'" "i = Suc i'"
      by (auto split: option.splits)
    show ?thesis
    proof (cases j)
      case 0
      with False show ?thesis by simp
    next
      case (Suc j')
      with Cons.prems(2) i' have "j' < i'" by simp
      from Cons.IH [OF i'(1) this] Suc show ?thesis by simp
    qed
  qed
qed

lemma present_pin_found:
  assumes "p \<noteq> 255" "p \<in> pin ` set bs"
  shows "\<exists>i < length bs. pin (bs ! i) = p \<and> (\<forall>j < i. pin (bs ! j) \<noteq> p) \<and> getState p bs = Some i"
proof -
  from assms(2) obtain i where f: "find_pin p bs = Some i"
    using find_pin_None [of p bs] by (cases "find_pin p bs") auto
  then have "i < length bs" "pin (bs ! i) = p"
    by (simp_all add: find_pin_Some)
  moreover have "\<forall>j < i. pin (bs ! j) \<noteq> p"
    using f by (auto dest: find_pin_least)
  moreover have "getState p bs = Some i"
    using f assms(1) by (simp add: getState_def)
  ultimately show ?thesis by blast
qed

lemma reset_found:
  assumes "getState p bs = Some i"
  shows "length (reset now p bs) = length bs \<and>
         transient_cleared now (bs ! i) (reset now p bs ! i) \<and>
         (\<forall>k < length bs. k \<noteq> i \<longrightarrow>
            (if mappedPin (bs ! k) = p then transient_cleared now (bs ! k) (reset now p bs ! k)
             else reset now p bs ! k = bs ! k))"
proof -
  from assms have i: "i < length bs"
    by (simp add: getState_SomeD)
  have c: "transient_cleared now b (cleared now b)" for b
    by (simp add: transient_cleared_def cleared_def)
  have "transient_cleared now (bs ! i) (reset now p bs ! i)"
    using i c by (simp add: nth_reset [OF assms])
  moreover have "\<forall>k < length bs. k \<noteq> i \<longrightarrow>
            (if mappedPin (bs ! k) = p then transient_cleared now (bs ! k) (reset now p bs ! k)
             else reset now p bs ! k = bs ! k)"
    using c by (simp add: nth_reset [OF assms])
  ultimately show ?thesis
    by (simp add: length_reset)
qed

lemma transient_cleared_eq: "transient_cleared now b b' \<Longrightarrow> b' = cleared now b"
  by (cases b') (simp add: transient_cleared_def cleared_def)


















section \<open>Unknown and sentinel pins\<close>

text \<open>
  Claim C8. For a pin that is the sentinel 255 or that no record of the registry carries,
  each of the six query predicates returns false and leaves the registry as it is,
  whatever the consume flag, and \<open>reset\<close> leaves the registry as it is. The model has no
  error value: nothing is signalled.
\<close>

theorem unknown_pin_is_noop:
  assumes "p = 255 \<or> p \<notin> pin ` set bs"
  shows "run_query q p rst now bs = (False, bs) \<and> reset now p bs = bs"
proof -
  from assms have none: "getState p bs = None"
    by (simp add: getState_None)
  then have "reset now p bs = bs"
    by (simp add: reset_def)
  moreover from none have "run_query q p rst now bs = (False, bs)"
    by (cases q) (simp_all add: query_defs checkPress_None)
  ultimately show ?thesis by simp
qed

theorem unknown_pin_is_noop_witness:
  "run_query IsPressed 255 True 5000 [pressed_once] = (False, [pressed_once]) \<and>
   reset 5000 255 [pressed_once] = [pressed_once] \<and>
   run_query IsShortPressed 9 True 5000 [pressed_once] = (False, [pressed_once]) \<and>
   reset 5000 9 [pressed_once] = [pressed_once]"
  using unknown_pin_is_noop [of 255 "[pressed_once]" IsPressed True 5000]
    unknown_pin_is_noop [of 9 "[pressed_once]" IsShortPressed True 5000]
  by (simp add: pressed_once_def)

section \<open>The query primitive\<close>

text \<open>
  Claim C1, as stated, asks for at least \<open>BUTTON_DOUBLECLICK_TIME\<close> milliseconds since
  \<open>last_time\<close>. At exactly that many (a press registered at clock 1000, queried at
  clock 1400) the three gates as stated pass and \<open>checkPress\<close> returns false.
\<close>

theorem checkPress_settle_boundary_counterexample:
  "gates_as_specified ([pressed_once] ! 0) 0 0 False (millis 1400) \<and>
   \<not> fst (checkPress (Some 0) 0 0 False False (millis 1400) [pressed_once])"
  by (simp add: gates_as_specified_def checkPress_def pressed_once_def millis_def
      RELEASED_def BUTTON_DOUBLECLICK_TIME_def)

text \<open>
  Claim C1, amended. For every record of the registry, \<open>checkPress\<close> returns true if and
  only if the state is \<open>RELEASED\<close> with a duration above 0 and strictly more than
  \<open>BUTTON_DOUBLECLICK_TIME\<close> milliseconds (modulo the clock width) have passed since
  \<open>last_time\<close>; the duration is above \<open>minDuration\<close> and, unless \<open>maxDuration\<close> is 0,
  at most \<open>maxDuration\<close>; and \<open>requireDouble\<close> implies \<open>doublePress\<close>.
\<close>

theorem checkPress_true_iff_gates:
  assumes "i < length bs"
  shows "fst (checkPress (Some i) minDuration maxDuration requireDouble consume now bs) =
     ((state (bs ! i) = RELEASED \<and> duration (bs ! i) > 0 \<and>
       now - last_time (bs ! i) > BUTTON_DOUBLECLICK_TIME) \<and>
      (duration (bs ! i) > minDuration \<and> (maxDuration = 0 \<or> duration (bs ! i) \<le> maxDuration)) \<and>
      (requireDouble \<longrightarrow> doublePress (bs ! i)))"
  by (simp add: fst_checkPress)

theorem checkPress_true_iff_gates_witness:
  "0 < length [pressed_once] \<and>
   fst (checkPress (Some 0) 0 BUTTON_LONGPRESS_TIME False True (millis 1401) [pressed_once]) \<and>
   \<not> fst (checkPress (Some 0) 0 BUTTON_LONGPRESS_TIME True True (millis 1401) [pressed_once]) \<and>
   \<not> fst (checkPress (Some 0) 0 BUTTON_LONGPRESS_TIME False True (millis 1400) [pressed_once])"
  using checkPress_true_iff_gates [of 0 "[pressed_once]" 0 BUTTON_LONGPRESS_TIME False True "millis 1401"]
    checkPress_true_iff_gates [of 0 "[pressed_once]" 0 BUTTON_LONGPRESS_TIME True True "millis 1401"]
    checkPress_true_iff_gates [of 0 "[pressed_once]" 0 BUTTON_LONGPRESS_TIME False True "millis 1400"]
  by (simp add: pressed_once_def millis_def RELEASED_def BUTTON_DOUBLECLICK_TIME_def
      BUTTON_LONGPRESS_TIME_def)

section \<open>The first press after clock zero\<close>

text \<open>
  Claim C10. A record that was never pressed or was just reset has \<open>last_time = 0\<close>.
  When a poll at a clock value below \<open>BUTTON_DOUBLECLICK_TIME\<close> registers its press
  (the state was not \<open>PRESSED\<close> and becomes \<open>PRESSED\<close>), \<open>doublePress\<close> is set,
  although no press came before.
\<close>

theorem first_press_near_clock_zero_is_double:
  assumes "last_time b = 0" "now < BUTTON_DOUBLECLICK_TIME"
    and "state b \<noteq> PRESSED" "state (fst (update_button cb now reading b)) = PRESSED"
  shows "doublePress (fst (update_button cb now reading b))"
proof -
  have eq: "fst (update_button cb now reading b) =
           b\<lparr>doublePress := (now - last_time b < BUTTON_DOUBLECLICK_TIME), duration := 0,
             last_time := now, state := PRESSED, lastReading := PRESSED\<rparr>"
    using state_becomes_pressed [OF assms(3,4)] by blast
  show ?thesis
    unfolding eq using assms(1,2) by simp
qed

theorem first_press_near_clock_zero_is_double_witness:
  "last_time (fst (update_button False (millis 10) PRESSED (initial_button 2 255))) = 0 \<and>
   millis 70 < BUTTON_DOUBLECLICK_TIME \<and>
   state (fst (update_button False (millis 10) PRESSED (initial_button 2 255))) \<noteq> PRESSED \<and>
   state (fst (update_button False (millis 70) PRESSED
            (fst (update_button False (millis 10) PRESSED (initial_button 2 255))))) = PRESSED \<and>
   doublePress (fst (update_button False (millis 70) PRESSED
            (fst (update_button False (millis 10) PRESSED (initial_button 2 255)))))"
proof -
  let ?b = "fst (update_button False (millis 10) PRESSED (initial_button 2 255))"
  have b: "?b = (initial_button 2 255)\<lparr>lastChangeTime := 10, lastReading := PRESSED\<rparr>"
    by (simp add: update_button_def debounce_step_eq longpress_step_def initial_button_def
        millis_def PRESSED_def RELEASED_def)
  have 1: "last_time ?b = 0"
    unfolding b by (simp add: initial_button_def)
  have 2: "millis 70 < BUTTON_DOUBLECLICK_TIME"
    by (simp add: millis_def BUTTON_DOUBLECLICK_TIME_def)
  have 3: "state ?b \<noteq> PRESSED"
    unfolding b by (simp add: initial_button_def PRESSED_def RELEASED_def)
  have 4: "state (fst (update_button False (millis 70) PRESSED ?b)) = PRESSED"
    unfolding b
    by (simp add: state_update_button initial_button_def millis_def BUTTON_DEBOUNCE_TIME_def)
  from 1 2 3 4 first_press_near_clock_zero_is_double [OF 1 2 3 4] show ?thesis
    by blast
qed

section \<open>Debounce stability\<close>

text \<open>
  Claim C2, as stated, lets no poll change the resolved state of a button whose raw
  reading toggles faster than the debounce window. In a registry where pin 2 is mapped to
  pin 3, pin 2 is held down while pin 3 bounces at 29 and 30 ms: the third poll registers
  the press of pin 2 and the second pass copies \<open>PRESSED\<close> onto the record of pin 3.
\<close>

theorem debounce_mirror_counterexample:
  "fast_toggling (unat BUTTON_DEBOUNCE_TIME) (lastReading (mirror_registry ! 1))
     (readings_of (pin (mirror_registry ! 1)) bounce_trace) \<and>
   state (mirror_registry ! 1) = RELEASED \<and>
   state (fst (run_update False bounce_trace mirror_registry) ! 1) = PRESSED"
  by code_simp

text \<open>
  Claim C2, amended. While the raw reading of a button toggles with every poll less than
  \<open>BUTTON_DEBOUNCE_TIME\<close> milliseconds after the last toggle, the first loop of
  \<open>update\<close> never changes the button's \<open>state\<close>; and when no record of the registry
  is mapped to the button, its \<open>state\<close> is the same after every prefix of the sequence
  of calls of \<open>update\<close>.
\<close>

theorem debounce_stability:
  assumes "fast_toggling (unat BUTTON_DEBOUNCE_TIME) (lastReading (bs ! i))
             (readings_of (pin (bs ! i)) tr)"
  shows "state (fst (run_button cb (take n (readings_of (pin (bs ! i)) tr)) (bs ! i))) = state (bs ! i) \<and>
         (i < length bs \<and> pin (bs ! i) \<noteq> 255 \<and> (\<forall>k < length bs. mappedState (bs ! k) \<noteq> Some i) \<longrightarrow>
            state (fst (run_update cb (take n tr) bs) ! i) = state (bs ! i))"
proof -
  let ?p = "pin (bs ! i)"
  have ft: "fast_toggling (unat BUTTON_DEBOUNCE_TIME) (lastReading (bs ! i)) (take n (readings_of ?p tr))"
    using assms by (rule fast_toggling_take)
  then have b: "state (fst (run_button cb (take n (readings_of ?p tr)) (bs ! i))) = state (bs ! i)"
    by (rule fast_toggling_state)
  have "state (fst (run_update cb (take n tr) bs) ! i) = state (bs ! i)"
    if "i < length bs" "pin (bs ! i) \<noteq> 255" "\<forall>k < length bs. mappedState (bs ! k) \<noteq> Some i"
    using run_update_untargeted [OF that(1,3,2), of cb "take n tr"] b
    by (simp add: readings_of_take)
  with b show ?thesis by blast
qed

theorem debounce_stability_witness:
  "fast_toggling (unat BUTTON_DEBOUNCE_TIME) (lastReading ([initial_button 3 255] ! 0))
     (readings_of (pin ([initial_button 3 255] ! 0)) bounce_trace) \<and>
   state (fst (run_update True bounce_trace [initial_button 3 255]) ! 0) = RELEASED"
proof -
  let ?bs = "[initial_button 3 255]"
  have h: "fast_toggling (unat BUTTON_DEBOUNCE_TIME) (lastReading (?bs ! 0))
     (readings_of (pin (?bs ! 0)) bounce_trace)"
    by code_simp
  have p: "0 < length ?bs" "pin (?bs ! 0) \<noteq> 255" "\<forall>k < length ?bs. mappedState (?bs ! k) \<noteq> Some 0"
    "state (?bs ! 0) = RELEASED"
    by (simp_all add: initial_button_def)
  have t: "take 3 bounce_trace = bounce_trace"
    by (simp add: bounce_trace_def)
  from debounce_stability [OF h, of True 3] p
  have "state (fst (run_update True (take 3 bounce_trace) ?bs) ! 0) = state (?bs ! 0)"
    by blast
  with h p(4) show ?thesis
    by (simp only: t)
qed

section \<open>Long-press repeat cadence\<close>

text \<open>
  Claim C3, as stated, counts three invocations while the raw input is held for three
  times \<open>BUTTON_LONGPRESS_TIME\<close> milliseconds. A single button on pin 2, idle, is held
  from time 0 and polled at every millisecond from 0 to 3000: the press is registered at
  51 and the callback is invoked at 1051 and 2051, twice. The third invocation would come
  at 3051.
\<close>

theorem long_press_raw_hold_counterexample:
  "every_ms 0 (hold_all 0 3001) \<and> held 2 (hold_all 0 3001) \<and>
   length (hold_all 0 3001) = 3 * unat BUTTON_LONGPRESS_TIME + 1 \<and>
   calls_of 0 (snd (run_update True (hold_all 0 3001) [initial_button 2 255])) = [1051, 2051]"
proof -
  let ?bs = "[initial_button 2 255]"
  have "calls_of 0 (snd (run_update True (take 3001 (hold_all 0 3052)) ?bs)) =
      filter (\<lambda>t. t < 0 + 3001) [0 + 1051, 0 + 2051, 0 + 3051]"
    by (rule held_registry(1)) (simp_all add: hold_all_facts initial_button_def millis_def)
  then have "calls_of 0 (snd (run_update True (hold_all 0 3001) ?bs)) = [1051, 2051]"
    by (simp add: hold_all_facts)
  then show ?thesis
    by (simp add: hold_all_facts BUTTON_LONGPRESS_TIME_def)
qed

text \<open>
  Claim C3, amended. A button that is no record's mirror target is idle (released, last
  read released, callback timer 0) and its raw input is held at \<open>PRESSED\<close> while
  \<open>update\<close> runs once per millisecond from time \<open>T\<close> on, with a callback
  registered. The press is registered by the poll at \<open>T + BUTTON_DEBOUNCE_TIME + 1\<close>.
  Through three times \<open>BUTTON_LONGPRESS_TIME\<close> milliseconds after that poll the callback
  is invoked for the button exactly three times, one, two and three windows after the
  registration; within the first three windows of raw holding it is invoked twice. The
  clock must read at least \<open>BUTTON_LONGPRESS_TIME\<close> at the first invocation, since the
  idle timer value 0 is compared with it.
\<close>

theorem long_press_repeats:
  assumes "i < length bs" "pin (bs ! i) \<noteq> 255" "\<forall>k < length bs. mappedState (bs ! k) \<noteq> Some i"
    and "state (bs ! i) = RELEASED" "lastReading (bs ! i) = RELEASED"
      "lastLongPressCallback (bs ! i) = 0"
    and "every_ms T tr" "held (pin (bs ! i)) tr"
    and "length tr = unat BUTTON_DEBOUNCE_TIME + 2 + 3 * unat BUTTON_LONGPRESS_TIME"
    and "unat BUTTON_LONGPRESS_TIME \<le>
           unat (millis (T + unat BUTTON_DEBOUNCE_TIME + 1 + unat BUTTON_LONGPRESS_TIME))"
  shows "state (fst (run_update True (take (unat BUTTON_DEBOUNCE_TIME + 2) tr) bs) ! i) = PRESSED \<and>
         last_time (fst (run_update True (take (unat BUTTON_DEBOUNCE_TIME + 2) tr) bs) ! i) =
           millis (T + unat BUTTON_DEBOUNCE_TIME + 1) \<and>
         calls_of i (snd (run_update True tr bs)) =
           [T + unat BUTTON_DEBOUNCE_TIME + 1 + unat BUTTON_LONGPRESS_TIME,
            T + unat BUTTON_DEBOUNCE_TIME + 1 + 2 * unat BUTTON_LONGPRESS_TIME,
            T + unat BUTTON_DEBOUNCE_TIME + 1 + 3 * unat BUTTON_LONGPRESS_TIME] \<and>
         calls_of i (snd (run_update True (take (3 * unat BUTTON_LONGPRESS_TIME + 1) tr) bs)) =
           [T + unat BUTTON_DEBOUNCE_TIME + 1 + unat BUTTON_LONGPRESS_TIME,
            T + unat BUTTON_DEBOUNCE_TIME + 1 + 2 * unat BUTTON_LONGPRESS_TIME]"
proof -
  have D: "unat BUTTON_DEBOUNCE_TIME = 50" and L: "unat BUTTON_LONGPRESS_TIME = 1000"
    by (simp_all add: BUTTON_DEBOUNCE_TIME_def BUTTON_LONGPRESS_TIME_def)
  from assms(9) have len: "length tr = 3052"
    by (simp add: D L)
  have "T + unat BUTTON_DEBOUNCE_TIME + 1 + unat BUTTON_LONGPRESS_TIME = T + 1051"
    by (simp add: D L)
  with assms(10) have clock: "1000 \<le> unat (millis (T + 1051))"
    by (simp only: L)
  note reg = held_registry [OF assms(1-8) len clock]
  have "calls_of i (snd (run_update True (take 3052 tr) bs)) =
      filter (\<lambda>t. t < T + 3052) [T + 1051, T + 2051, T + 3051]"
    by (rule reg(1))
  then have all: "calls_of i (snd (run_update True tr bs)) = [T + 1051, T + 2051, T + 3051]"
    by (simp add: len)
  have "calls_of i (snd (run_update True (take 3001 tr) bs)) =
      filter (\<lambda>t. t < T + 3001) [T + 1051, T + 2051, T + 3051]"
    by (rule reg(1))
  then have raw: "calls_of i (snd (run_update True (take 3001 tr) bs)) = [T + 1051, T + 2051]"
    by simp
  from reg(2,3) all raw show ?thesis
    by (simp add: D L ac_simps)
qed

theorem long_press_repeats_witness:
  "calls_of 0 (snd (run_update True (hold_all (2 ^ 32 - 2000) 3052) [initial_button 2 255])) =
     [2 ^ 32 - 949, 2 ^ 32 + 51, 2 ^ 32 + 1051] \<and>
   millis (2 ^ 32 - 949) = 4294966347 \<and> millis (2 ^ 32 + 51) = 51 \<and> millis (2 ^ 32 + 1051) = 1051 \<and>
   calls_of 0 (snd (run_update True (take 3001 (hold_all (2 ^ 32 - 2000) 3052))
     [initial_button 2 255])) = [2 ^ 32 - 949, 2 ^ 32 + 51]"
proof -
  let ?bs = "[initial_button 2 255]"
  let ?T = "2 ^ 32 - 2000 :: nat"
  have D: "unat BUTTON_DEBOUNCE_TIME = 50" and L: "unat BUTTON_LONGPRESS_TIME = 1000"
    by (simp_all add: BUTTON_DEBOUNCE_TIME_def BUTTON_LONGPRESS_TIME_def)
  have p: "0 < length ?bs" "pin (?bs ! 0) \<noteq> 255"
    "\<forall>k < length ?bs. mappedState (?bs ! k) \<noteq> Some 0"
    "state (?bs ! 0) = RELEASED" "lastReading (?bs ! 0) = RELEASED"
    "lastLongPressCallback (?bs ! 0) = 0"
    by (simp_all add: initial_button_def)
  have tr: "every_ms ?T (hold_all ?T 3052)" "held (pin (?bs ! 0)) (hold_all ?T 3052)"
    by (rule hold_all_facts)+
  have len: "length (hold_all ?T 3052) =
      unat BUTTON_DEBOUNCE_TIME + 2 + 3 * unat BUTTON_LONGPRESS_TIME"
    by (simp add: hold_all_facts D L)
  have clock: "unat BUTTON_LONGPRESS_TIME \<le>
           unat (millis (?T + unat BUTTON_DEBOUNCE_TIME + 1 + unat BUTTON_LONGPRESS_TIME))"
    by (simp add: D L millis_def)
  have m: "millis (2 ^ 32 - 949) = 4294966347" "millis (2 ^ 32 + 51) = 51"
    "millis (2 ^ 32 + 1051) = 1051"
    by (simp_all add: millis_def)
  from long_press_repeats [OF p tr len clock] m show ?thesis
    by (simp add: D L)
qed

section \<open>Reset\<close>

text \<open>
  Claim C7. For every pin other than 255 that a record of the registry carries there is
  a record with that pin, the first one in the array, such that \<open>reset\<close> keeps the
  length of the registry, clears the transient fields of that record and keeps its pin
  and its mapping fields; every other record whose \<open>mappedPin\<close> is the reset pin is
  cleared the same way; every remaining record is unchanged, also a record mapped to one
  of the cleared dependents (no second hop).
\<close>

theorem reset_registered_pin:
  assumes "p \<noteq> 255" "p \<in> pin ` set bs"
  shows "\<exists>i < length bs.
           pin (bs ! i) = p \<and> (\<forall>j < i. pin (bs ! j) \<noteq> p) \<and>
           length (reset now p bs) = length bs \<and>
           transient_cleared now (bs ! i) (reset now p bs ! i) \<and>
           (\<forall>k < length bs. k \<noteq> i \<longrightarrow>
              (if mappedPin (bs ! k) = p
               then transient_cleared now (bs ! k) (reset now p bs ! k)
               else reset now p bs ! k = bs ! k))"
proof -
  from present_pin_found [OF assms] obtain i where i: "i < length bs" "pin (bs ! i) = p"
    "\<forall>j < i. pin (bs ! j) \<noteq> p" "getState p bs = Some i"
    by blast
  from reset_found [OF i(4), of now] i(1,2,3) show ?thesis
    by blast
qed

theorem reset_registered_pin_witness:
  "map pin chain_registry = [4, 3, 2] \<and> map mappedPin chain_registry = [3, 2, 255] \<and>
   reset 5000 2 chain_registry =
     [chain_registry ! 0, cleared 5000 (chain_registry ! 1), cleared 5000 (chain_registry ! 2)] \<and>
   duration (reset 5000 2 chain_registry ! 0) = 9"
proof -
  have pins: "map pin chain_registry = [4, 3, 2]"
    and maps: "map mappedPin chain_registry = [3, 2, 255]"
    and d0: "duration (chain_registry ! 0) = 9"
    by (simp_all add: chain_registry_def setup_registry_def setup_button_def pressed_once_def
        initial_button_def)
  have len: "length chain_registry = 3"
    using pins by (metis length_map length_Cons list.size(3) numeral_3_eq_3)
  have lt3: "k < 3 \<Longrightarrow> k = 0 \<or> k = 1 \<or> k = 2" for k :: nat
    by arith
  have pn: "pin (chain_registry ! 0) = 4" "pin (chain_registry ! 1) = 3" "pin (chain_registry ! 2) = 2"
    and mp: "mappedPin (chain_registry ! 0) = 3" "mappedPin (chain_registry ! 1) = 2"
    using pins maps len by (simp_all flip: nth_map [of _ chain_registry])
  have "(2 :: uint8) \<noteq> 255" by simp
  moreover have "2 \<in> pin ` set chain_registry"
    using pins by (metis list.set_intros(1,2) set_map)
  ultimately obtain i where i: "i < length chain_registry" "pin (chain_registry ! i) = 2"
    and c: "transient_cleared 5000 (chain_registry ! i) (reset 5000 2 chain_registry ! i)"
    and rl: "length (reset 5000 2 chain_registry) = length chain_registry"
    and all: "\<forall>k < length chain_registry. k \<noteq> i \<longrightarrow>
      (if mappedPin (chain_registry ! k) = 2
       then transient_cleared 5000 (chain_registry ! k) (reset 5000 2 chain_registry ! k)
       else reset 5000 2 chain_registry ! k = chain_registry ! k)"
    using reset_registered_pin [of 2 chain_registry 5000] by blast
  from i len pn have i2: "i = 2"
    by (auto dest!: lt3)
  have r2: "reset 5000 2 chain_registry ! 2 = cleared 5000 (chain_registry ! 2)"
    using c i2 by (simp add: transient_cleared_eq)
  have "transient_cleared 5000 (chain_registry ! 1) (reset 5000 2 chain_registry ! 1)"
    using all len i2 mp by auto
  then have r1: "reset 5000 2 chain_registry ! 1 = cleared 5000 (chain_registry ! 1)"
    by (rule transient_cleared_eq)
  have r0: "reset 5000 2 chain_registry ! 0 = chain_registry ! 0"
    using all len i2 mp by auto
  have "reset 5000 2 chain_registry =
     [chain_registry ! 0, cleared 5000 (chain_registry ! 1), cleared 5000 (chain_registry ! 2)]"
  proof (rule nth_equalityI)
    show "length (reset 5000 2 chain_registry) =
      length [chain_registry ! 0, cleared 5000 (chain_registry ! 1), cleared 5000 (chain_registry ! 2)]"
      using rl len by simp
  next
    fix k
    assume "k < length (reset 5000 2 chain_registry)"
    then have "k = 0 \<or> k = 1 \<or> k = 2"
      using rl len lt3 by simp
    then show "reset 5000 2 chain_registry ! k =
      [chain_registry ! 0, cleared 5000 (chain_registry ! 1), cleared 5000 (chain_registry ! 2)] ! k"
      using r0 r1 r2 by auto
  qed
  with pins maps r0 d0 show ?thesis by simp
qed

section \<open>Consuming and non-consuming queries\<close>




text \<open>
  Claim C6, as stated, promises true at every later call. The registry is indeed left
  unchanged, but the settle gate reads the clock: a press registered at clock 1000 is
  reported at clock 1500 and, with no reset and no new press, not reported
  \<open>2 ^ 32 + 1200\<close> milliseconds after the start, when the clock reads 1200 again.
\<close>

theorem query_without_consume_wraps_counterexample:
  "fst (run_query IsPressed 2 False (millis 1500) [pressed_once]) \<and>
   snd (run_query IsPressed 2 False (millis 1500) [pressed_once]) = [pressed_once] \<and>
   \<not> fst (run_query IsPressed 2 False (millis (2 ^ 32 + 1200)) [pressed_once])"
  by (simp add: query_defs getState_def fst_checkPress checkPress_no_reset pressed_once_def
      millis_def RELEASED_def BUTTON_DOUBLECLICK_TIME_def)

text \<open>
  Claim C6, amended. Every query without consume, whatever the predicate, the pin, the
  clock and its result, leaves the whole registry unchanged; and once such a query has
  returned true for a pin, it returns true at every later time that is less than
  \<open>2 ^ 32\<close> milliseconds after the press was registered (\<open>last_time\<close>), until a
  reset or a new press changes the record.
\<close>

theorem query_without_consume_stable:
  "snd (run_query q p False now bs) = bs \<and>
   (getState p bs = Some i \<and> last_time (bs ! i) = millis t0 \<and> t0 \<le> t \<and> t \<le> t' \<and>
    t' - t0 < 2 ^ 32 \<and> fst (run_query q p False (millis t) bs) \<longrightarrow>
      fst (run_query q p False (millis t') (snd (run_query q p False (millis t) bs))))"
proof -
  have frame: "snd (run_query q p False c bs) = bs" for c
    by (cases q) (simp_all add: query_defs checkPress_no_reset)
  have "fst (run_query q p False (millis t') bs)"
    if g: "getState p bs = Some i" and l: "last_time (bs ! i) = millis t0"
      and t: "t0 \<le> t" "t \<le> t'" "t' - t0 < 2 ^ 32"
      and f: "fst (run_query q p False (millis t) bs)"
  proof -
    have "unat (millis t - millis t0) = t - t0"
      using t by (intro millis_diff) auto
    moreover have "unat (millis t' - millis t0) = t' - t0"
      using t by (intro millis_diff) auto
    ultimately have "millis t - millis t0 \<le> millis t' - millis t0"
      using t(2) by (simp add: word_le_nat_alt)
    then have later: "BUTTON_DOUBLECLICK_TIME < millis t - last_time (bs ! i) \<Longrightarrow>
        BUTTON_DOUBLECLICK_TIME < millis t' - last_time (bs ! i)"
      by (simp add: l)
    show ?thesis
      using f later
      by (cases q) (simp_all add: query_defs g fst_checkPress)
  qed
  with frame show ?thesis by simp
qed

theorem query_without_consume_stable_witness:
  "fst (run_query IsPressed 2 False (millis (2 ^ 32 - 100))
          [pressed_once\<lparr>last_time := millis (2 ^ 32 - 1000)\<rparr>]) \<and>
   snd (run_query IsPressed 2 False (millis (2 ^ 32 - 100))
          [pressed_once\<lparr>last_time := millis (2 ^ 32 - 1000)\<rparr>]) =
     [pressed_once\<lparr>last_time := millis (2 ^ 32 - 1000)\<rparr>] \<and>
   fst (run_query IsPressed 2 False (millis (2 ^ 32 + 5000))
          (snd (run_query IsPressed 2 False (millis (2 ^ 32 - 100))
             [pressed_once\<lparr>last_time := millis (2 ^ 32 - 1000)\<rparr>]))) \<and>
   snd (run_query IsLongPressed 2 False (millis (2 ^ 32 - 100))
          [pressed_once\<lparr>last_time := millis (2 ^ 32 - 1000)\<rparr>]) =
     [pressed_once\<lparr>last_time := millis (2 ^ 32 - 1000)\<rparr>]"
proof -
  let ?bs = "[pressed_once\<lparr>last_time := millis (2 ^ 32 - 1000)\<rparr>]"
  have g: "getState 2 ?bs = Some 0"
    by (simp add: getState_def pressed_once_def)
  have l: "last_time (?bs ! 0) = millis (2 ^ 32 - 1000)"
    by simp
  have f: "fst (run_query IsPressed 2 False (millis (2 ^ 32 - 100)) ?bs)"
    by (simp add: query_defs getState_def fst_checkPress pressed_once_def millis_def
        RELEASED_def BUTTON_DOUBLECLICK_TIME_def)
  have t: "(2 ^ 32 - 1000 :: nat) \<le> 2 ^ 32 - 100" "(2 ^ 32 - 100 :: nat) \<le> 2 ^ 32 + 5000"
    "(2 ^ 32 + 5000 :: nat) - (2 ^ 32 - 1000) < 2 ^ 32"
    by simp_all
  note th = query_without_consume_stable [of IsPressed 2 "millis (2 ^ 32 - 100)" ?bs 0
      "2 ^ 32 - 1000" "2 ^ 32 - 100" "2 ^ 32 + 5000"]
  from th have a: "snd (run_query IsPressed 2 False (millis (2 ^ 32 - 100)) ?bs) = ?bs"
    by (rule conjunct1)
  from th g l t f
  have b: "fst (run_query IsPressed 2 False (millis (2 ^ 32 + 5000))
          (snd (run_query IsPressed 2 False (millis (2 ^ 32 - 100)) ?bs)))"
    by blast
  have c: "snd (run_query IsLongPressed 2 False (millis (2 ^ 32 - 100)) ?bs) = ?bs"
    using query_without_consume_stable [of IsLongPressed 2 "millis (2 ^ 32 - 100)" ?bs]
    by (rule conjunct1)
  from f a b c show ?thesis by blast
qed

section \<open>Clock wraparound\<close>

text \<open>
  Claim C9. Every comparison of times in the poll step and in \<open>checkPress\<close> is made on
  a difference of \<open>unsigned long\<close> values, so each agrees with the true elapsed time
  as long as that is less than \<open>2 ^ 32\<close> milliseconds, wherever the clock wrapped in
  between. With the press registered at time \<open>t0\<close>, the last raw change seen at
  \<open>tc\<close>, the last invocation of the callback at \<open>tf\<close> and the poll or query at
  \<open>t\<close>: a duration latched at release is \<open>t - t0\<close>; the callback is invoked only
  when at least \<open>BUTTON_LONGPRESS_TIME\<close> have elapsed since \<open>t0\<close> and since \<open>tf\<close>,
  and for a held button exactly then; a press registered now is a double press exactly
  when less than \<open>BUTTON_DOUBLECLICK_TIME\<close> have elapsed since \<open>t0\<close>; \<open>checkPress\<close>
  succeeds exactly when its gates hold with more than \<open>BUTTON_DOUBLECLICK_TIME\<close>
  elapsed since \<open>t0\<close>; and the resolved state follows the reading exactly when the
  reading is unchanged and more than \<open>BUTTON_DEBOUNCE_TIME\<close> have elapsed since \<open>tc\<close>.
\<close>

theorem clock_wraparound_safe:
  assumes "last_time b = millis t0" "t0 \<le> t" "t - t0 < 2 ^ 32"
  shows "(state b = PRESSED \<and> state (fst (update_button cb (millis t) r b)) = RELEASED \<longrightarrow>
            unat (duration (fst (update_button cb (millis t) r b))) = t - t0) \<and>
         (snd (update_button cb (millis t) r b) \<longrightarrow> unat BUTTON_LONGPRESS_TIME \<le> t - t0) \<and>
         (state b \<noteq> PRESSED \<and> state (fst (update_button cb (millis t) r b)) = PRESSED \<longrightarrow>
            doublePress (fst (update_button cb (millis t) r b)) = (t - t0 < unat BUTTON_DOUBLECLICK_TIME)) \<and>
         (bs ! i = b \<longrightarrow>
            fst (checkPress (Some i) minD maxD dbl rst (millis t) bs) =
              ((state b = RELEASED \<and> 0 < duration b \<and> unat BUTTON_DOUBLECLICK_TIME < t - t0) \<and>
               (minD < duration b \<and> (maxD = 0 \<or> duration b \<le> maxD)) \<and>
               (dbl \<longrightarrow> doublePress b))) \<and>
         (lastChangeTime b = millis tc \<and> tc \<le> t \<and> t - tc < 2 ^ 32 \<longrightarrow>
            state (fst (update_button cb (millis t) r b)) =
              (if r = lastReading b \<and> unat BUTTON_DEBOUNCE_TIME < t - tc then r else state b)) \<and>
         (lastLongPressCallback b = millis tf \<and> tf \<le> t \<and> t - tf < 2 ^ 32 \<longrightarrow>
            (snd (update_button cb (millis t) r b) \<longrightarrow> unat BUTTON_LONGPRESS_TIME \<le> t - tf) \<and>
            (state b = PRESSED \<and> lastReading b = PRESSED \<and> r = PRESSED \<longrightarrow>
               snd (update_button cb (millis t) r b) =
                 (cb \<and> unat BUTTON_LONGPRESS_TIME \<le> t - t0 \<and> unat BUTTON_LONGPRESS_TIME \<le> t - tf)))"
proof -
  have d: "unat (millis t - last_time b) = t - t0"
    using assms by (simp add: millis_diff)
  have 1: "state b = PRESSED \<and> state (fst (update_button cb (millis t) r b)) = RELEASED \<longrightarrow>
            unat (duration (fst (update_button cb (millis t) r b))) = t - t0"
    using d by (auto dest: state_becomes_released)
  have 2: "snd (update_button cb (millis t) r b) \<longrightarrow> unat BUTTON_LONGPRESS_TIME \<le> t - t0"
    using d by (auto dest!: callback_fired simp: word_le_nat_alt)
  have 3: "state b \<noteq> PRESSED \<and> state (fst (update_button cb (millis t) r b)) = PRESSED \<longrightarrow>
            doublePress (fst (update_button cb (millis t) r b)) = (t - t0 < unat BUTTON_DOUBLECLICK_TIME)"
  proof
    assume a: "state b \<noteq> PRESSED \<and> state (fst (update_button cb (millis t) r b)) = PRESSED"
    then have eq: "fst (update_button cb (millis t) r b) =
           b\<lparr>doublePress := (millis t - last_time b < BUTTON_DOUBLECLICK_TIME), duration := 0,
             last_time := millis t, state := PRESSED, lastReading := PRESSED\<rparr>"
      using state_becomes_pressed [of b cb "millis t" r] by blast
    show "doublePress (fst (update_button cb (millis t) r b)) = (t - t0 < unat BUTTON_DOUBLECLICK_TIME)"
      unfolding eq using d by (simp add: word_less_nat_alt)
  qed
  have 4: "bs ! i = b \<longrightarrow>
            fst (checkPress (Some i) minD maxD dbl rst (millis t) bs) =
              ((state b = RELEASED \<and> 0 < duration b \<and> unat BUTTON_DOUBLECLICK_TIME < t - t0) \<and>
               (minD < duration b \<and> (maxD = 0 \<or> duration b \<le> maxD)) \<and>
               (dbl \<longrightarrow> doublePress b))"
    using d by (auto simp: fst_checkPress word_less_nat_alt)
  have 5: "lastChangeTime b = millis tc \<and> tc \<le> t \<and> t - tc < 2 ^ 32 \<longrightarrow>
            state (fst (update_button cb (millis t) r b)) =
              (if r = lastReading b \<and> unat BUTTON_DEBOUNCE_TIME < t - tc then r else state b)"
  proof
    assume a: "lastChangeTime b = millis tc \<and> tc \<le> t \<and> t - tc < 2 ^ 32"
    then have "unat (millis t - lastChangeTime b) = t - tc"
      by (simp add: millis_diff)
    then show "state (fst (update_button cb (millis t) r b)) =
              (if r = lastReading b \<and> unat BUTTON_DEBOUNCE_TIME < t - tc then r else state b)"
      by (simp add: state_update_button word_less_nat_alt)
  qed
  have 6: "lastLongPressCallback b = millis tf \<and> tf \<le> t \<and> t - tf < 2 ^ 32 \<longrightarrow>
            (snd (update_button cb (millis t) r b) \<longrightarrow> unat BUTTON_LONGPRESS_TIME \<le> t - tf) \<and>
            (state b = PRESSED \<and> lastReading b = PRESSED \<and> r = PRESSED \<longrightarrow>
               snd (update_button cb (millis t) r b) =
                 (cb \<and> unat BUTTON_LONGPRESS_TIME \<le> t - t0 \<and> unat BUTTON_LONGPRESS_TIME \<le> t - tf))"
  proof
    assume a: "lastLongPressCallback b = millis tf \<and> tf \<le> t \<and> t - tf < 2 ^ 32"
    then have f: "unat (millis t - lastLongPressCallback b) = t - tf"
      by (simp add: millis_diff)
    have x: "snd (update_button cb (millis t) r b) \<longrightarrow> unat BUTTON_LONGPRESS_TIME \<le> t - tf"
      using f by (auto dest!: callback_fired simp: word_le_nat_alt)
    have y: "state b = PRESSED \<and> lastReading b = PRESSED \<and> r = PRESSED \<longrightarrow>
               snd (update_button cb (millis t) r b) =
                 (cb \<and> unat BUTTON_LONGPRESS_TIME \<le> t - t0 \<and> unat BUTTON_LONGPRESS_TIME \<le> t - tf)"
      using d f by (auto simp: held_poll)
    from x y show "(snd (update_button cb (millis t) r b) \<longrightarrow> unat BUTTON_LONGPRESS_TIME \<le> t - tf) \<and>
            (state b = PRESSED \<and> lastReading b = PRESSED \<and> r = PRESSED \<longrightarrow>
               snd (update_button cb (millis t) r b) =
                 (cb \<and> unat BUTTON_LONGPRESS_TIME \<le> t - t0 \<and> unat BUTTON_LONGPRESS_TIME \<le> t - tf))"
      by blast
  qed
  from 1 2 3 4 5 6 show ?thesis by blast
qed

theorem clock_wraparound_safe_witness:
  "millis (2 ^ 32 + 60) < millis (2 ^ 32 - 30) \<and>
   state (fst (update_button True (millis (2 ^ 32 + 30)) RELEASED released_at_wrap)) = PRESSED \<and>
   state (fst (update_button True (millis (2 ^ 32 + 60)) RELEASED released_at_wrap)) = RELEASED \<and>
   unat (duration (fst (update_button True (millis (2 ^ 32 + 60)) RELEASED released_at_wrap))) = 90 \<and>
   \<not> snd (update_button True (millis (2 ^ 32 + 400)) PRESSED held_at_wrap) \<and>
   snd (update_button True (millis (2 ^ 32 + 500)) PRESSED held_at_wrap)"
proof -
  let ?b = released_at_wrap and ?h = held_at_wrap
  have D: "unat BUTTON_DEBOUNCE_TIME = 50" and L: "unat BUTTON_LONGPRESS_TIME = 1000"
    by (simp_all add: BUTTON_DEBOUNCE_TIME_def BUTTON_LONGPRESS_TIME_def)
  have w: "millis (2 ^ 32 + 60) < millis (2 ^ 32 - 30)"
    by (simp add: millis_def)
  have b: "last_time ?b = millis (2 ^ 32 - 30)" "lastChangeTime ?b = millis (2 ^ 32 - 10)"
    "state ?b = PRESSED" "lastReading ?b = RELEASED"
    by (simp_all add: released_at_wrap_def initial_button_def)
  have h: "last_time ?h = millis (2 ^ 32 - 2500)"
    "lastLongPressCallback ?h = millis (2 ^ 32 - 500)"
    "state ?h = PRESSED" "lastReading ?h = PRESSED"
    by (simp_all add: held_at_wrap_def initial_button_def)
  have pr: "PRESSED \<noteq> RELEASED"
    by (simp add: PRESSED_def RELEASED_def)
  note early = clock_wraparound_safe [OF b(1), of "2 ^ 32 + 30" True RELEASED _ _ _ _ _ _
      "2 ^ 32 - 10"]
  have s30: "state (fst (update_button True (millis (2 ^ 32 + 30)) RELEASED ?b)) = PRESSED"
    using early b by (simp add: D)
  note late = clock_wraparound_safe [OF b(1), of "2 ^ 32 + 60" True RELEASED _ _ _ _ _ _
      "2 ^ 32 - 10"]
  have s60: "state (fst (update_button True (millis (2 ^ 32 + 60)) RELEASED ?b)) = RELEASED"
    using late b by (simp add: D)
  have "state ?b = PRESSED \<and>
      state (fst (update_button True (millis (2 ^ 32 + 60)) RELEASED ?b)) = RELEASED \<longrightarrow>
      unat (duration (fst (update_button True (millis (2 ^ 32 + 60)) RELEASED ?b))) =
        2 ^ 32 + 60 - (2 ^ 32 - 30)"
    using late by simp
  with b(3) s60
  have d60: "unat (duration (fst (update_button True (millis (2 ^ 32 + 60)) RELEASED ?b))) = 90"
    by simp
  note t400 = clock_wraparound_safe [OF h(1), of "2 ^ 32 + 400" True PRESSED _ _ _ _ _ _ _
      "2 ^ 32 - 500"]
  have f400: "\<not> snd (update_button True (millis (2 ^ 32 + 400)) PRESSED ?h)"
    using t400 h by (simp add: L)
  note t500 = clock_wraparound_safe [OF h(1), of "2 ^ 32 + 500" True PRESSED _ _ _ _ _ _ _
      "2 ^ 32 - 500"]
  have f500: "snd (update_button True (millis (2 ^ 32 + 500)) PRESSED ?h)"
    using t500 h by (simp add: L)
  from w s30 s60 d60 f400 f500 show ?thesis
    by blast
qed

section \<open>The second pass\<close>



end
